theory Spec2Isabelle
  imports Main "HOL-Library.Sublist"
begin

section \<open>Python text primitives used by the scripts\<close>

text \<open>
  A Python \<^verbatim>\<open>str\<close> is modelled as a \<^typ>\<open>string\<close>: a list of characters, each a code
  point below 256.  The character classes are the ones CPython uses for \<^verbatim>\<open>str\<close>
  patterns and for \<^verbatim>\<open>str.strip\<close> / \<^verbatim>\<open>str.split\<close>, restricted to that range.
\<close>

definition isspace :: "char \<Rightarrow> bool" where
  \<comment> \<open>\<^verbatim>\<open>\s\<close>, \<^verbatim>\<open>str.isspace\<close>: TAB, LF, VT, FF, CR, FS, GS, RS, US, space, NEL, NBSP\<close>
  "isspace c =
     (let n = (of_char c :: nat)
      in (9 \<le> n \<and> n \<le> 13) \<or> (28 \<le> n \<and> n \<le> 32) \<or> n = 133 \<or> n = 160)"

definition isdigit :: "char \<Rightarrow> bool" where
  \<comment> \<open>\<^verbatim>\<open>\d\<close>: the decimal digits\<close>
  "isdigit c = (let n = (of_char c :: nat) in 48 \<le> n \<and> n \<le> 57)"

definition islower_az :: "char \<Rightarrow> bool" where
  \<comment> \<open>the class \<^verbatim>\<open>[a-z]\<close>\<close>
  "islower_az c = (let n = (of_char c :: nat) in 97 \<le> n \<and> n \<le> 122)"

definition not_gt :: "char \<Rightarrow> bool" where
  \<comment> \<open>the class \<^verbatim>\<open>[^>]\<close>\<close>
  "not_gt c = (c \<noteq> CHR ''>'')"

definition lit :: "char \<Rightarrow> char \<Rightarrow> bool" where
  \<comment> \<open>a literal character of a pattern\<close>
  "lit a c = (c = a)"

subsection \<open>Regular expressions: sequences of quantified character classes\<close>

text \<open>
  Every pattern of the two scripts is a sequence of character classes, each taken once,
  optionally (\<^verbatim>\<open>?\<close>), zero or more times (\<^verbatim>\<open>*\<close>) or one or more times (\<^verbatim>\<open>+\<close>).  The
  matcher tries the greedy choice first and backtracks, as \<^verbatim>\<open>re\<close> does; it returns the
  length of the match that starts at the head of the string.
\<close>

datatype quant = One | Opt | Star | Plus

type_synonym item = "(char \<Rightarrow> bool) \<times> quant"

fun re_match :: "item list \<Rightarrow> string \<Rightarrow> nat option" where
  "re_match [] s = Some 0"
| "re_match ((p, One) # r) [] = None"
| "re_match ((p, One) # r) (c # cs) =
     (if p c then map_option Suc (re_match r cs) else None)"
| "re_match ((p, Opt) # r) [] = re_match r []"
| "re_match ((p, Opt) # r) (c # cs) =
     (if p c
      then (case re_match r cs of Some n \<Rightarrow> Some (Suc n) | None \<Rightarrow> re_match r (c # cs))
      else re_match r (c # cs))"
| "re_match ((p, Star) # r) [] = re_match r []"
| "re_match ((p, Star) # r) (c # cs) =
     (if p c
      then (case re_match ((p, Star) # r) cs of
              Some n \<Rightarrow> Some (Suc n)
            | None \<Rightarrow> re_match r (c # cs))
      else re_match r (c # cs))"
| "re_match ((p, Plus) # r) [] = None"
| "re_match ((p, Plus) # r) (c # cs) =
     (if p c then map_option Suc (re_match ((p, Star) # r) cs) else None)"

text \<open>
  \<^verbatim>\<open>re.sub(pattern, repl, s)\<close> replaces the leftmost non-overlapping matches, scanning
  from the left.  No pattern of the scripts matches the empty string, so a match always
  consumes at least one character.
\<close>

fun re_sub :: "item list \<Rightarrow> string \<Rightarrow> string \<Rightarrow> string" where
  "re_sub pat repl [] = []"
| "re_sub pat repl (c # cs) =
     (case re_match pat (c # cs) of
        Some (Suc n) \<Rightarrow> repl @ re_sub pat repl (drop n cs)
      | _ \<Rightarrow> c # re_sub pat repl cs)"

definition pat_timestamp :: "item list" where
  \<comment> \<open>\<^verbatim>\<open><\d{2}:\d{2}:\d{2}\.\d{3}>\<close>\<close>
  "pat_timestamp =
     [(lit CHR ''<'', One),
      (isdigit, One), (isdigit, One), (lit CHR '':'', One),
      (isdigit, One), (isdigit, One), (lit CHR '':'', One),
      (isdigit, One), (isdigit, One), (lit CHR ''.'', One),
      (isdigit, One), (isdigit, One), (isdigit, One),
      (lit CHR ''>'', One)]"

definition pat_style :: "item list" where
  \<comment> \<open>\<^verbatim>\<open></?[a-z][^>]*>\<close>\<close>
  "pat_style =
     [(lit CHR ''<'', One), (lit CHR ''/'', Opt), (islower_az, One), (not_gt, Star),
      (lit CHR ''>'', One)]"

definition pat_angle :: "item list" where
  \<comment> \<open>\<^verbatim>\<open><[^>]*>\<close>\<close>
  "pat_angle = [(lit CHR ''<'', One), (not_gt, Star), (lit CHR ''>'', One)]"

definition pat_tag :: "item list" where
  \<comment> \<open>\<^verbatim>\<open><[^>]+>\<close>\<close>
  "pat_tag = [(lit CHR ''<'', One), (not_gt, Plus), (lit CHR ''>'', One)]"

definition pat_spaces :: "item list" where
  \<comment> \<open>\<^verbatim>\<open>\s+\<close>\<close>
  "pat_spaces = [(isspace, Plus)]"

subsection \<open>String methods\<close>

definition strip :: "string \<Rightarrow> string" where
  \<comment> \<open>\<^verbatim>\<open>str.strip()\<close>\<close>
  "strip s = rev (dropWhile isspace (rev (dropWhile isspace s)))"

function split_ws :: "string \<Rightarrow> string list" where
  \<comment> \<open>\<^verbatim>\<open>str.split()\<close>: the maximal runs of non-whitespace characters\<close>
  "split_ws s =
     (case dropWhile isspace s of
        [] \<Rightarrow> []
      | c # cs \<Rightarrow>
          (c # takeWhile (\<lambda>x. \<not> isspace x) cs)
            # split_ws (dropWhile (\<lambda>x. \<not> isspace x) cs))"
  by pat_completeness auto
termination
proof (relation "measure length")
  fix s c cs
  assume a: "dropWhile isspace s = c # cs"
  have "length (dropWhile (\<lambda>x. \<not> isspace x) cs) \<le> length cs"
    by (rule length_dropWhile_le)
  also have "length cs < length (dropWhile isspace s)"
    using a by simp
  also have "\<dots> \<le> length s"
    by (rule length_dropWhile_le)
  finally show "(dropWhile (\<lambda>x. \<not> isspace x) cs, s) \<in> measure length"
    by simp
qed simp

fun join :: "string \<Rightarrow> string list \<Rightarrow> string" where
  \<comment> \<open>\<^verbatim>\<open>sep.join(xs)\<close>\<close>
  "join sep [] = []"
| "join sep [x] = x"
| "join sep (x # y # ys) = x @ sep @ join sep (y # ys)"

definition digit_char :: "nat \<Rightarrow> char" where
  \<comment> \<open>the character of a digit below ten\<close>
  "digit_char d = ''0123456789'' ! d"

function str_nat :: "nat \<Rightarrow> string" where
  \<comment> \<open>\<^verbatim>\<open>str(n)\<close> for a non-negative integer: its decimal digits\<close>
  "str_nat n = (if n < 10 then [digit_char n] else str_nat (n div 10) @ [digit_char (n mod 10)])"
  by pat_completeness auto
termination
  by (relation "measure id") auto

section \<open>summarize\_transcript.py\<close>

subsection \<open>Data\<close>

text \<open>
  A segment is a JSON object; the scripts read only its \<^verbatim>\<open>'text'\<close> entry, a string.  It
  is a dictionary from keys to strings: \<open>sg ''text'' = None\<close> when the key is absent.  In
  the data model every segment has a text; \<^verbatim>\<open>agno_summarize\<close> also accepts objects without
  one.
\<close>

type_synonym segment = "string \<rightharpoonup> string"

text \<open>
  The exceptions the scripts can meet, all instances of \<^verbatim>\<open>Exception\<close>.  A process ends
  either by \<^verbatim>\<open>sys.exit\<close> or by an exception nobody caught.
\<close>

datatype exn =
    KeyError string
  | RequestException
  | Exception string
  | AttributeError string
  | OSError
  | ProviderError string

datatype abort = SysExit int | Uncaught exn

subsection \<open>clean\_transcript\_text\<close>

definition clean_segment_text :: "string \<Rightarrow> string" where
  \<comment> \<open>the body of the loop, lines 73 to 85, on the text of one segment\<close>
  "clean_segment_text t0 =
     (let t1 = re_sub pat_timestamp [] t0;
          t2 = re_sub pat_style [] t1;
          t3 = re_sub pat_angle [] t2;
          t4 = re_sub pat_spaces '' '' t3
      in strip t4)"

fun clean_loop :: "segment list \<Rightarrow> string list \<Rightarrow> exn + string list" where
  \<comment> \<open>the \<^verbatim>\<open>for\<close> loop; \<^verbatim>\<open>segment["text"]\<close> raises KeyError when the key is absent\<close>
  "clean_loop [] cleaned_texts = Inr cleaned_texts"
| "clean_loop (seg # segs) cleaned_texts =
     (case seg ''text'' of
        None \<Rightarrow> Inl (KeyError ''text'')
      | Some t \<Rightarrow> clean_loop segs (cleaned_texts @ [clean_segment_text t]))"

definition clean_transcript_text :: "segment list option \<Rightarrow> exn + string" where
  \<comment> \<open>\<^verbatim>\<open>not segments\<close> holds for \<^verbatim>\<open>None\<close> and for the empty list\<close>
  "clean_transcript_text segments =
     (case segments of
        None \<Rightarrow> Inr []
      | Some [] \<Rightarrow> Inr []
      | Some segs \<Rightarrow>
          (case clean_loop segs [] of
             Inl e \<Rightarrow> Inl e
           | Inr cleaned_texts \<Rightarrow> Inr (join '' '' cleaned_texts)))"

definition seg :: "string \<Rightarrow> segment" where
  \<comment> \<open>the segment \<^verbatim>\<open>{"text": t}\<close>\<close>
  "seg t = [''text'' \<mapsto> t]"

subsection \<open>The collaborators: the web application's API, the provider, the file system\<close>

text \<open>
  The scripts talk to two HTTP endpoints and to a language-model provider.  What these
  answer is a parameter of the model.  \<open>Failed\<close> stands for a
  \<^verbatim>\<open>requests.RequestException\<close> raised by \<^verbatim>\<open>requests.get\<close>, \<^verbatim>\<open>raise_for_status\<close> or
  \<^verbatim>\<open>response.json\<close>; \<open>Json\<close> carries the decoded body.  Console output is not modelled:
  \<^verbatim>\<open>print\<close> is taken to succeed.

  The value of \<^verbatim>\<open>"snippet"\<close> in a video item is an object, or some other JSON value
  (\<^verbatim>\<open>null\<close>, a number, a string, a list), which has no \<^verbatim>\<open>get\<close>.
\<close>

datatype 'a http = Failed | Json 'a

record transcript_body =
  success :: bool  \<comment> \<open>the truth value of \<^verbatim>\<open>data.get("success")\<close>\<close>
  transcript :: "segment list option"  \<comment> \<open>\<^verbatim>\<open>data.get("transcript")\<close>\<close>
  message :: "string option"  \<comment> \<open>\<^verbatim>\<open>data.get("message")\<close>\<close>

datatype snippet_value = SnippetObject "string \<rightharpoonup> string" | SnippetNotObject

record video_item =
  snippet :: "snippet_value option"  \<comment> \<open>\<open>None\<close> when the key is absent\<close>

record video_body =
  items :: "video_item list option"  \<comment> \<open>\<^verbatim>\<open>data.get("items")\<close>\<close>

record world =
  http_transcript :: "string \<Rightarrow> transcript_body http"  \<comment> \<open>by URL\<close>
  http_video :: "string \<Rightarrow> video_body http"  \<comment> \<open>by URL\<close>
  llm_init :: "exn option"  \<comment> \<open>what \<^verbatim>\<open>get_llm()\<close> or \<^verbatim>\<open>Agent(...)\<close> raises, if anything\<close>
  generate :: "string \<Rightarrow> exn + string"  \<comment> \<open>\<^verbatim>\<open>agent.generate(prompt)\<close>\<close>
  open_ok :: "string \<Rightarrow> bool"  \<comment> \<open>whether \<^verbatim>\<open>open(path, "w")\<close> succeeds\<close>
  dump_error :: "exn option"  \<comment> \<open>what \<^verbatim>\<open>json.dump(result, f)\<close> raises, if anything\<close>

abbreviation nl :: string where
  "nl \<equiv> [CHR 0x0A]"

subsection \<open>fetch\_transcript and fetch\_video\_details\<close>

definition fetch_transcript :: "world \<Rightarrow> string \<Rightarrow> string \<Rightarrow> exn + segment list option" where
  \<comment> \<open>the handler catches \<^verbatim>\<open>requests.RequestException\<close> only: the plain \<^verbatim>\<open>Exception\<close> of
      line 38 leaves the function\<close>
  "fetch_transcript w vid api_base_url =
     (let url = api_base_url @ ''/api/youtube/transcript/'' @ vid
      in case http_transcript w url of
           Failed \<Rightarrow> Inr None
         | Json data \<Rightarrow>
             if success data \<and> transcript data \<noteq> None \<and> transcript data \<noteq> Some []
             then Inr (transcript data)
             else Inl (Exception (''Failed to fetch transcript: '' @
                    (case message data of None \<Rightarrow> ''Unknown error'' | Some m \<Rightarrow> m))))"

definition fetch_video_details :: "world \<Rightarrow> string \<Rightarrow> string \<Rightarrow> exn + video_item option" where
  "fetch_video_details w vid api_base_url =
     (let url = api_base_url @ ''/api/youtube/video/'' @ vid
      in case http_video w url of
           Failed \<Rightarrow> Inr None
         | Json data \<Rightarrow>
             (case items data of
                Some (it # its) \<Rightarrow> Inr (Some it)
              | _ \<Rightarrow> Inl (Exception ''No video details found'')))"

subsection \<open>summarize\_with\_agno\<close>

definition agno_prompt :: "string \<Rightarrow> string \<Rightarrow> string" where
  \<comment> \<open>the f-string of lines 105 to 119\<close>
  "agno_prompt transcript_text video_title =
     nl @ ''    You are tasked with creating a concise summary of the following video transcript.'' @ nl
     @ ''    '' @ nl
     @ ''    The video title is: '' @ [CHR 0x22] @ video_title @ [CHR 0x22] @ nl
     @ ''    '' @ nl
     @ ''    Based on the transcript, provide:'' @ nl
     @ ''    1. A brief 2-3 sentence summary of what the video is about'' @ nl
     @ ''    2. 3-5 key points or main takeaways from the content'' @ nl
     @ ''    3. The overall tone or style of the video (educational, entertainment, tutorial, etc.)'' @ nl
     @ ''    '' @ nl
     @ ''    Format your response in clear, well-organized paragraphs.'' @ nl
     @ ''    '' @ nl
     @ ''    Here is the transcript:'' @ nl
     @ ''    '' @ take 10000 transcript_text
     @ ''  # Limiting to first 10,000 chars to avoid token limits'' @ nl
     @ ''    ''"

definition summarize_with_agno :: "world \<Rightarrow> string \<Rightarrow> string \<Rightarrow> exn + string" where
  \<comment> \<open>no \<^verbatim>\<open>try\<close>: whatever the provider raises leaves the function\<close>
  "summarize_with_agno w transcript_text video_title =
     (if transcript_text = [] then Inr ''No transcript available to summarize.''
      else case llm_init w of
             Some e \<Rightarrow> Inl e
           | None \<Rightarrow> generate w (agno_prompt transcript_text video_title))"

subsection \<open>main\<close>

record args =
  video_id :: string
  api_url :: string
  output_path :: "string option"  \<comment> \<open>\<^verbatim>\<open>args.output\<close>\<close>

record summary_result =
  result_video_id :: string
  result_title :: string
  result_summary :: string

text \<open>
  What a run leaves in the file system: nothing, the output file created by \<^verbatim>\<open>open\<close> but
  not completely written, or the output file holding the dumped result.
\<close>

datatype file_effect = NoFile | Opened string | Dumped string summary_result

definition video_title_of :: "video_item option \<Rightarrow> exn + string" where
  \<comment> \<open>line 141: \<^verbatim>\<open>.get("title", ...)\<close> on a snippet that is not an object raises\<close>
  "video_title_of video_details =
     (case video_details of
        None \<Rightarrow> Inr ''Untitled Video''
      | Some d \<Rightarrow>
          (case snippet d of
             None \<Rightarrow> Inr ''Untitled Video''
           | Some SnippetNotObject \<Rightarrow> Inl (AttributeError ''get'')
           | Some (SnippetObject sn) \<Rightarrow>
               (case sn ''title'' of
                  None \<Rightarrow> Inr ''Untitled Video''
                | Some t \<Rightarrow> Inr t)))"

definition main :: "world \<Rightarrow> args \<Rightarrow> file_effect \<times> abort option" where
  \<comment> \<open>the result: what the run left in the file system, and how it ended (\<open>None\<close> at the
      end of \<^verbatim>\<open>main\<close>)\<close>
  "main w a =
     (case fetch_transcript w (video_id a) (api_url a) of
        Inl e \<Rightarrow> (NoFile, Some (Uncaught e))
      | Inr tr \<Rightarrow>
          if tr = None \<or> tr = Some [] then (NoFile, Some (SysExit 1))
          else
            (case fetch_video_details w (video_id a) (api_url a) of
               Inl e \<Rightarrow> (NoFile, Some (Uncaught e))
             | Inr video_details \<Rightarrow>
                 (case video_title_of video_details of
                    Inl e \<Rightarrow> (NoFile, Some (Uncaught e))
                  | Inr video_title \<Rightarrow>
                      (case clean_transcript_text tr of
                         Inl e \<Rightarrow> (NoFile, Some (Uncaught e))
                       | Inr transcript_text \<Rightarrow>
                           (case summarize_with_agno w transcript_text video_title of
                              Inl e \<Rightarrow> (NoFile, Some (Uncaught e))
                            | Inr summary \<Rightarrow>
                                (let result = \<lparr>result_video_id = video_id a,
                                               result_title = video_title,
                                               result_summary = summary\<rparr>
                                 in case output_path a of
                                      None \<Rightarrow> (NoFile, None)
                                    | Some path \<Rightarrow>
                                        if path = [] then (NoFile, None)
                                        else if \<not> open_ok w path
                                          then (NoFile, Some (Uncaught OSError))
                                        else
                                          (case dump_error w of
                                             Some e \<Rightarrow> (Opened path, Some (Uncaught e))
                                           | None \<Rightarrow> (Dumped path result, None))))))))"

definition exit_code :: "file_effect \<times> abort option \<Rightarrow> int" where
  \<comment> \<open>the interpreter's exit status: 0 at the end of \<^verbatim>\<open>main\<close>, the argument of
      \<^verbatim>\<open>sys.exit\<close>, 1 after the traceback of an uncaught exception\<close>
  "exit_code r =
     (case snd r of None \<Rightarrow> 0 | Some (SysExit n) \<Rightarrow> n | Some (Uncaught e) \<Rightarrow> 1)"

definition file_written :: "file_effect \<times> abort option \<Rightarrow> file_effect" where
  "file_written r = fst r"

section \<open>summarize\_transcript\_with\_agnos.py\<close>

text \<open>
  The module decides once, at import, whether the provider is usable: the flag
  \<^verbatim>\<open>USING_AGNO\<close> and the function \<^verbatim>\<open>llm\<close> (or \<^verbatim>\<open>None\<close>).  Both are parameters here.
\<close>

record provider =
  USING_AGNO :: bool
  llm :: "(string \<Rightarrow> exn + string) option"

datatype transcript_arg = Segments "segment list" | Text string

subsection \<open>fallback\_summarize\<close>

definition slice :: "nat \<Rightarrow> nat \<Rightarrow> 'a list \<Rightarrow> 'a list" where
  \<comment> \<open>\<^verbatim>\<open>xs[a:b]\<close> for indices that are not negative\<close>
  "slice a b xs = take (b - a) (drop a xs)"

definition clean_text :: "string \<Rightarrow> string" where
  \<comment> \<open>lines 130 and 131 (and 100 and 101)\<close>
  "clean_text t0 =
     (let t1 = re_sub pat_tag [] t0
      in strip (re_sub pat_spaces '' '' t1))"

definition middle_start_of :: "nat \<Rightarrow> nat" where
  \<comment> \<open>\<^verbatim>\<open>max(0, total_words // 2 - 50)\<close>\<close>
  "middle_start_of total_words = nat (max 0 (int total_words div 2 - 50))"

definition end_start_of :: "nat \<Rightarrow> nat" where
  \<comment> \<open>\<^verbatim>\<open>max(0, total_words - 100)\<close>\<close>
  "end_start_of total_words = nat (max 0 (int total_words - 100))"

definition beginning_of :: "string list \<Rightarrow> string" where
  "beginning_of words = join '' '' (take 100 words)"

definition middle_of :: "string list \<Rightarrow> string" where
  "middle_of words =
     (let middle_start = middle_start_of (length words)
      in join '' '' (slice middle_start (middle_start + 100) words))"

definition end_of :: "string list \<Rightarrow> string" where
  "end_of words = join '' '' (drop (end_start_of (length words)) words)"

definition short_notice :: "nat \<Rightarrow> string" where
  \<comment> \<open>the f-string of line 138\<close>
  "short_notice total_words =
     ''This video has very little spoken content. The transcript contains only ''
     @ str_nat total_words @ '' words.''"

definition title_text_of :: "string option \<Rightarrow> string" where
  \<comment> \<open>line 147: \<^verbatim>\<open>None\<close> and the empty string are false\<close>
  "title_text_of title =
     (case title of
        None \<Rightarrow> []
      | Some t \<Rightarrow> if t = [] then [] else ''Video: '' @ t @ nl @ nl)"

definition report :: "string \<Rightarrow> nat \<Rightarrow> string \<Rightarrow> string \<Rightarrow> string \<Rightarrow> string" where
  \<comment> \<open>the f-string of lines 149 to 158\<close>
  "report title_text total_words beginning middle ending =
     title_text
     @ ''This is a basic summary as the AI summarization service is unavailable.'' @ nl @ nl
     @ ''The video contains approximately '' @ str_nat total_words
     @ '' words of spoken content.'' @ nl @ nl
     @ ''Beginning excerpt: '' @ beginning @ ''...'' @ nl @ nl
     @ ''Middle excerpt: '' @ middle @ ''...'' @ nl @ nl
     @ ''Ending excerpt: '' @ ending @ ''...'' @ nl"

definition fallback_summarize :: "string \<Rightarrow> string option \<Rightarrow> string" where
  "fallback_summarize text0 title =
     (let words = split_ws (clean_text text0);
          total_words = length words
      in if total_words < 50 then short_notice total_words
         else report (title_text_of title) total_words
                (beginning_of words) (middle_of words) (end_of words))"

subsection \<open>agno\_summarize\<close>

definition transcript_text_of :: "transcript_arg \<Rightarrow> string" where
  \<comment> \<open>lines 91 to 96\<close>
  "transcript_text_of tr =
     (case tr of
        Segments segs \<Rightarrow>
          join '' ''
            (map (\<lambda>sg. case sg ''text'' of None \<Rightarrow> [] | Some t \<Rightarrow> t)
               (filter (\<lambda>sg. sg ''text'' \<noteq> None) segs))
      | Text s \<Rightarrow> s)"

definition llm_prompt :: "string \<Rightarrow> string option \<Rightarrow> string" where
  \<comment> \<open>lines 107 to 112\<close>
  "llm_prompt transcript_text video_title =
     ''Please summarize this video transcript''
     @ (case video_title of
          None \<Rightarrow> []
        | Some t \<Rightarrow>
            if t = [] then []
            else '' for the video titled: '' @ [CHR 0x27] @ t @ [CHR 0x27])
     @ ''. Focus on the main topics and key points.'' @ nl @ nl
     @ take 4000 transcript_text"

definition agno_summarize :: "provider \<Rightarrow> transcript_arg \<Rightarrow> string option \<Rightarrow> string" where
  \<comment> \<open>\<^verbatim>\<open>except Exception\<close> catches whatever the call raises, and the fallback follows\<close>
  "agno_summarize p tr video_title =
     (let transcript_text = clean_text (transcript_text_of tr)
      in case (if USING_AGNO p then llm p else None) of
           Some f \<Rightarrow>
             (case f (llm_prompt transcript_text video_title) of
                Inr summary \<Rightarrow> summary
              | Inl e \<Rightarrow> fallback_summarize transcript_text video_title)
         | None \<Rightarrow> fallback_summarize transcript_text video_title)"

section \<open>Auxiliary definitions for the statements and the proofs\<close>

text \<open>
  \<open>no_tag s\<close>: no \<^verbatim>\<open><\<close> of \<open>s\<close> has a \<^verbatim>\<open>>\<close> anywhere after it, so no substring of \<open>s\<close>
  is delimited by angle brackets.
\<close>

fun no_tag :: "string \<Rightarrow> bool" where
  "no_tag [] = True"
| "no_tag (c # cs) = (if c = CHR ''<'' then CHR ''>'' \<notin> set cs else no_tag cs)"

text \<open>
  \<open>paired False s\<close>: the angle brackets of \<open>s\<close> come in pairs, every \<^verbatim>\<open><\<close> closed by a
  \<^verbatim>\<open>>\<close> before the next bracket and no \<^verbatim>\<open>>\<close> outside a pair.  The flag tells whether the
  scan is inside a pair.
\<close>

fun paired :: "bool \<Rightarrow> string \<Rightarrow> bool" where
  "paired inside [] = (\<not> inside)"
| "paired inside (c # cs) =
     (if c = CHR ''<'' then \<not> inside \<and> paired True cs
      else if c = CHR ''>'' then inside \<and> paired False cs
      else paired inside cs)"

definition after_gt :: "string \<Rightarrow> string" where
  "after_gt cs = tl (dropWhile (\<lambda>x. x \<noteq> CHR ''>'') cs)"

definition bracket_free :: "string \<Rightarrow> bool" where
  "bracket_free s = (CHR ''<'' \<notin> set s \<and> CHR ''>'' \<notin> set s)"

fun single_spaced :: "string \<Rightarrow> bool" where
  \<comment> \<open>no two whitespace characters are adjacent\<close>
  "single_spaced [] = True"
| "single_spaced [c] = True"
| "single_spaced (a # b # cs) = (\<not> (isspace a \<and> isspace b) \<and> single_spaced (b # cs))"

definition is_bracket :: "char \<Rightarrow> bool" where
  "is_bracket c = (c = CHR ''<'' \<or> c = CHR ''>'')"

text \<open>Words as \<^verbatim>\<open>str.split()\<close> returns them: not empty, with no whitespace inside.\<close>

definition proper :: "string list \<Rightarrow> bool" where
  "proper ws = (\<forall>w \<in> set ws. w \<noteq> [] \<and> (\<forall>c \<in> set w. \<not> isspace c))"

definition stripr :: "string \<Rightarrow> string" where
  \<comment> \<open>the right half of \<^verbatim>\<open>str.strip()\<close>\<close>
  "stripr s = rev (dropWhile isspace (rev s))"

text \<open>
  \<open>wc True s\<close> counts the words of \<open>s\<close>: the characters that are not whitespace and
  follow whitespace or start the string.  The flag tells whether a word may start.
\<close>

fun wc :: "bool \<Rightarrow> string \<Rightarrow> nat" where
  "wc b [] = 0"
| "wc b (c # cs) = (if isspace c then wc True cs else (if b then 1 else 0) + wc False cs)"

text \<open>The cleaned texts of the segments, in order (the list the loop builds).\<close>

definition cleaned_pieces :: "segment list \<Rightarrow> string list" where
  "cleaned_pieces segs =
     map (\<lambda>sg. case sg ''text'' of None \<Rightarrow> [] | Some t \<Rightarrow> clean_segment_text t) segs"

text \<open>A transcript of fifty words, for the examples.\<close>

definition fifty_words :: string where
  "fifty_words = ''w1 w2 w3 w4 w5 w6 w7 w8 w9 w10 w11 w12 w13 w14 w15 w16 w17 w18 w19 w20 w21 w22 w23 w24 w25 w26 w27 w28 w29 w30 w31 w32 w33 w34 w35 w36 w37 w38 w39 w40 w41 w42 w43 w44 w45 w46 w47 w48 w49 w50''"

text \<open>
  Collaborators for the examples: a run that works, one without transcript, one whose
  provider fails.
\<close>

definition example_args :: args where
  "example_args =
     \<lparr>video_id = ''abc123'', api_url = ''http://localhost:3000'', output_path = Some ''out.json''\<rparr>"

definition working_world :: world where
  "working_world =
     \<lparr>http_transcript =
        (\<lambda>url. Json \<lparr>success = True, transcript = Some [seg ''Hello <c>there</c>''],
                      message = None\<rparr>),
      http_video =
        (\<lambda>url. Json \<lparr>items =
           Some [\<lparr>snippet = Some (SnippetObject [''title'' \<mapsto> ''Greeting''])\<rparr>]\<rparr>),
      llm_init = None,
      generate = (\<lambda>prompt. Inr ''A greeting.''),
      open_ok = (\<lambda>path. True),
      dump_error = None\<rparr>"


definition failing_llm_world :: world where
  "failing_llm_world =
     working_world\<lparr>generate := (\<lambda>prompt. Inl (ProviderError ''service unavailable''))\<rparr>"

definition failing_provider :: provider where
  "failing_provider =
     \<lparr>USING_AGNO = True, llm = Some (\<lambda>prompt. Inl (ProviderError ''service unavailable''))\<rparr>"

text \<open>A provider that answers with the prompt it was sent.\<close>

definition echo_provider :: provider where
  "echo_provider = \<lparr>USING_AGNO = True, llm = Some (\<lambda>prompt. Inr prompt)\<rparr>"

text \<open>
  \<open>stable s\<close>: no position of \<open>s\<close> starts a match of \<^verbatim>\<open><[^>]+>\<close>: a \<^verbatim>\<open><\<close> is the last
  character, or is followed at once by \<^verbatim>\<open>>\<close>, or has no \<^verbatim>\<open>>\<close> after it.
\<close>

fun stable :: "string \<Rightarrow> bool" where
  "stable [] = True"
| "stable (c # cs) =
     (\<not> (c = CHR ''<'' \<and> cs \<noteq> [] \<and> hd cs \<noteq> CHR ''>'' \<and> CHR ''>'' \<in> set cs) \<and> stable cs)"

text \<open>Patterns that match, if at all, from a \<^verbatim>\<open><\<close> up to the first \<^verbatim>\<open>>\<close> after it.\<close>

definition upto_gt :: "item list \<Rightarrow> bool" where
  "upto_gt r = (\<forall>cs k. re_match r cs = Some k \<longrightarrow>
      CHR ''>'' \<in> set cs \<and> k = Suc (length (takeWhile (\<lambda>x. x \<noteq> CHR ''>'') cs)))"

definition avoids_gt :: "(char \<Rightarrow> bool) \<Rightarrow> bool" where
  "avoids_gt p = (\<forall>c. p c \<longrightarrow> c \<noteq> CHR ''>'')"

definition taglike :: "item list \<Rightarrow> bool" where
  "taglike pat = (\<forall>c cs k. re_match pat (c # cs) = Some k \<longrightarrow>
      c = CHR ''<'' \<and> CHR ''>'' \<in> set cs \<and> k = Suc (Suc (length (takeWhile (\<lambda>x. x \<noteq> CHR ''>'') cs))))"

section \<open>The patterns\<close>

lemmas class_defs = isspace_def isdigit_def islower_az_def not_gt_def lit_def

lemmas pat_defs = pat_timestamp_def pat_style_def pat_angle_def pat_tag_def pat_spaces_def

lemma upto_gt_last: "upto_gt [(lit CHR ''>'', One)]"
  unfolding upto_gt_def
proof (intro allI impI)
  fix cs k
  assume "re_match [(lit CHR ''>'', One)] cs = Some k"
  then show "CHR ''>'' \<in> set cs \<and> k = Suc (length (takeWhile (\<lambda>x. x \<noteq> CHR ''>'') cs))"
    by (cases cs) (auto simp: lit_def split: if_splits)
qed

lemma upto_gt_One:
  assumes "avoids_gt p" and "upto_gt r"
  shows "upto_gt ((p, One) # r)"
  unfolding upto_gt_def
proof (intro allI impI)
  fix cs k
  assume m: "re_match ((p, One) # r) cs = Some k"
  then obtain c ds where cs: "cs = c # ds" by (cases cs) auto
  with m have pc: "p c" and "map_option Suc (re_match r ds) = Some k"
    by (auto split: if_splits)
  then obtain j where "re_match r ds = Some j" and k: "k = Suc j" by auto
  with assms(2) have "CHR ''>'' \<in> set ds" and "j = Suc (length (takeWhile (\<lambda>x. x \<noteq> CHR ''>'') ds))"
    by (auto simp: upto_gt_def)
  moreover from pc assms(1) have "c \<noteq> CHR ''>''" by (simp add: avoids_gt_def)
  ultimately show "CHR ''>'' \<in> set cs \<and> k = Suc (length (takeWhile (\<lambda>x. x \<noteq> CHR ''>'') cs))"
    using cs k by simp
qed

lemma upto_gt_Opt:
  assumes "avoids_gt p" and "upto_gt r"
  shows "upto_gt ((p, Opt) # r)"
  unfolding upto_gt_def
proof (intro allI impI)
  fix cs k
  assume m: "re_match ((p, Opt) # r) cs = Some k"
  show "CHR ''>'' \<in> set cs \<and> k = Suc (length (takeWhile (\<lambda>x. x \<noteq> CHR ''>'') cs))"
  proof (cases "re_match r cs = Some k")
    case True
    with assms(2) show ?thesis by (simp add: upto_gt_def)
  next
    case False
    with m obtain c ds where cs: "cs = c # ds" by (cases cs) auto
    with m False have pc: "p c" by (auto split: if_splits)
    with m cs False obtain j where j: "re_match r ds = Some j" and k: "k = Suc j"
      by (auto split: option.splits)
    with assms(2) have "CHR ''>'' \<in> set ds" and "j = Suc (length (takeWhile (\<lambda>x. x \<noteq> CHR ''>'') ds))"
      by (auto simp: upto_gt_def)
    moreover from pc assms(1) have "c \<noteq> CHR ''>''" by (simp add: avoids_gt_def)
    ultimately show ?thesis using cs k by simp
  qed
qed

lemma upto_gt_Star_aux:
  assumes "avoids_gt p" and "upto_gt r"
  shows "re_match ((p, Star) # r) cs = Some k \<Longrightarrow>
     CHR ''>'' \<in> set cs \<and> k = Suc (length (takeWhile (\<lambda>x. x \<noteq> CHR ''>'') cs))"
proof (induction cs arbitrary: k)
  case Nil
  then have "re_match r [] = Some k" by simp
  with assms(2) have "CHR ''>'' \<in> set ([] :: string)" unfolding upto_gt_def by blast
  then show ?case by simp
next
  case (Cons c ds)
  show ?case
  proof (cases "re_match r (c # ds) = Some k")
    case True
    with assms(2) show ?thesis unfolding upto_gt_def by blast
  next
    case False
    with Cons.prems have pc: "p c" by (auto split: if_splits)
    with Cons.prems False obtain j where j: "re_match ((p, Star) # r) ds = Some j" and k: "k = Suc j"
      by (auto split: option.splits)
    from Cons.IH [OF j] have "CHR ''>'' \<in> set ds" and "j = Suc (length (takeWhile (\<lambda>x. x \<noteq> CHR ''>'') ds))"
      by auto
    moreover from pc assms(1) have "c \<noteq> CHR ''>''" by (simp add: avoids_gt_def)
    ultimately show ?thesis using k by simp
  qed
qed

lemma upto_gt_Star:
  assumes "avoids_gt p" and "upto_gt r"
  shows "upto_gt ((p, Star) # r)"
  unfolding upto_gt_def using upto_gt_Star_aux [OF assms] by blast

lemma upto_gt_Plus:
  assumes "avoids_gt p" and "upto_gt r"
  shows "upto_gt ((p, Plus) # r)"
  unfolding upto_gt_def
proof (intro allI impI)
  fix cs k
  assume m: "re_match ((p, Plus) # r) cs = Some k"
  then obtain c ds where cs: "cs = c # ds" by (cases cs) auto
  with m have pc: "p c" and "map_option Suc (re_match ((p, Star) # r) ds) = Some k"
    by (auto split: if_splits)
  then obtain j where "re_match ((p, Star) # r) ds = Some j" and k: "k = Suc j" by auto
  with upto_gt_Star_aux [OF assms] have "CHR ''>'' \<in> set ds" and "j = Suc (length (takeWhile (\<lambda>x. x \<noteq> CHR ''>'') ds))"
    by auto
  moreover from pc assms(1) have "c \<noteq> CHR ''>''" by (simp add: avoids_gt_def)
  ultimately show "CHR ''>'' \<in> set cs \<and> k = Suc (length (takeWhile (\<lambda>x. x \<noteq> CHR ''>'') cs))"
    using cs k by simp
qed

lemma star_gt:
  "re_match [(not_gt, Star), (lit CHR ''>'', One)] cs =
     (if CHR ''>'' \<in> set cs then Some (Suc (length (takeWhile (\<lambda>x. x \<noteq> CHR ''>'') cs))) else None)"
  by (induction cs) (auto simp: not_gt_def lit_def)

lemma match_angle:
  "re_match pat_angle (c # cs) =
     (if c = CHR ''<'' \<and> CHR ''>'' \<in> set cs
      then Some (Suc (Suc (length (takeWhile (\<lambda>x. x \<noteq> CHR ''>'') cs)))) else None)"
  by (simp add: pat_angle_def star_gt) (simp add: lit_def)

lemma taglikeI:
  assumes "upto_gt r"
  shows "taglike ((lit CHR ''<'', One) # r)"
  unfolding taglike_def
proof (intro allI impI)
  fix c cs k
  assume m: "re_match ((lit CHR ''<'', One) # r) (c # cs) = Some k"
  then have c: "c = CHR ''<''" and "map_option Suc (re_match r cs) = Some k"
    by (auto simp: lit_def split: if_splits)
  then obtain j where "re_match r cs = Some j" and "k = Suc j" by auto
  with assms c show "c = CHR ''<'' \<and> CHR ''>'' \<in> set cs \<and> k = Suc (Suc (length (takeWhile (\<lambda>x. x \<noteq> CHR ''>'') cs)))"
    by (simp add: upto_gt_def)
qed

lemma avoids_gt_simps:
  "avoids_gt not_gt" "avoids_gt isdigit" "avoids_gt islower_az"
  "avoids_gt (lit CHR '':'')" "avoids_gt (lit CHR ''.'')" "avoids_gt (lit CHR ''/'')"
  by (auto simp: avoids_gt_def class_defs)

lemmas upto_gt_intros = upto_gt_last upto_gt_One upto_gt_Opt upto_gt_Star upto_gt_Plus

lemma taglike_angle: "taglike pat_angle"
  unfolding pat_angle_def by (intro taglikeI upto_gt_intros avoids_gt_simps)

lemma taglike_tag: "taglike pat_tag"
  unfolding pat_tag_def by (intro taglikeI upto_gt_intros avoids_gt_simps)

lemma taglike_style: "taglike pat_style"
  unfolding pat_style_def by (intro taglikeI upto_gt_intros avoids_gt_simps)

lemma taglike_timestamp: "taglike pat_timestamp"
  unfolding pat_timestamp_def by (intro taglikeI upto_gt_intros avoids_gt_simps)

section \<open>Removing tags\<close>

lemma length_after_gt: "length (after_gt cs) \<le> length cs"
  unfolding after_gt_def
  by (metis diff_le_self length_dropWhile_le length_tl order_trans)

lemma set_after_gt: "set (after_gt cs) \<subseteq> set cs"
  unfolding after_gt_def
  by (metis list.set_sel(2) set_dropWhileD subsetI tl_Nil)

lemma re_sub_nomatch:
  "re_match pat (c # cs) = None \<Longrightarrow> re_sub pat repl (c # cs) = c # re_sub pat repl cs"
  by simp

lemma re_sub_match:
  assumes "taglike pat" and "re_match pat (c # cs) = Some k"
  shows "re_sub pat [] (c # cs) = re_sub pat [] (after_gt cs)"
    and "c = CHR ''<''" and "CHR ''>'' \<in> set cs"
proof -
  from assms have k: "k = Suc (Suc (length (takeWhile (\<lambda>x. x \<noteq> CHR ''>'') cs)))"
    and c: "c = CHR ''<''" "CHR ''>'' \<in> set cs"
    unfolding taglike_def by blast+
  have "drop (Suc (length (takeWhile (\<lambda>x. x \<noteq> CHR ''>'') cs))) cs = after_gt cs"
    by (simp add: after_gt_def dropWhile_eq_drop drop_Suc tl_drop)
  with assms(2) k show "re_sub pat [] (c # cs) = re_sub pat [] (after_gt cs)" by simp
  from c show "c = CHR ''<''" and "CHR ''>'' \<in> set cs" by simp_all
qed

lemma gt_free_no_tag: "CHR ''>'' \<notin> set s \<Longrightarrow> no_tag s"
  by (induction s) auto

lemma re_sub_no_tag_id:
  assumes "taglike pat"
  shows "no_tag s \<Longrightarrow> re_sub pat [] s = s"
proof (induction s)
  case Nil
  then show ?case by simp
next
  case (Cons c cs)
  have nomatch: "re_match pat (c # cs) = None"
  proof (cases "re_match pat (c # cs)")
    case (Some k)
    from re_sub_match(2,3) [OF assms Some] Cons.prems show ?thesis by simp
  qed simp
  have "no_tag cs"
    using Cons.prems by (auto simp: gt_free_no_tag split: if_splits)
  with Cons.IH show ?case
    by (simp only: re_sub_nomatch [OF nomatch])
qed

lemma set_re_sub_taglike:
  assumes "taglike pat"
  shows "set (re_sub pat [] s) \<subseteq> set s"
proof (induction s rule: length_induct)
  case (1 s)
  show ?case
  proof (cases s)
    case Nil
    then show ?thesis by simp
  next
    case (Cons c cs)
    have a: "set (re_sub pat [] cs) \<subseteq> set cs"
      using 1 Cons by simp
    have "length (after_gt cs) < length s"
      using length_after_gt [of cs] Cons by simp
    with 1 have "set (re_sub pat [] (after_gt cs)) \<subseteq> set (after_gt cs)"
      by blast
    with set_after_gt [of cs] have b: "set (re_sub pat [] (after_gt cs)) \<subseteq> set cs"
      by blast
    show ?thesis
    proof (cases "re_match pat (c # cs)")
      case None
      with a Cons show ?thesis
        by (auto simp only: re_sub_nomatch [OF None] set_simps)
    next
      case (Some k)
      with b Cons show ?thesis
        by (auto simp only: re_sub_match(1) [OF assms Some] set_simps)
    qed
  qed
qed

lemma no_tag_re_sub_angle: "no_tag (re_sub pat_angle [] s)"
proof (induction s rule: length_induct)
  case (1 s)
  show ?case
  proof (cases s)
    case Nil
    then show ?thesis by simp
  next
    case (Cons c cs)
    have a: "no_tag (re_sub pat_angle [] cs)"
      using 1 Cons by simp
    have "length (after_gt cs) < length s"
      using length_after_gt [of cs] Cons by simp
    with 1 have b: "no_tag (re_sub pat_angle [] (after_gt cs))"
      by blast
    show ?thesis
    proof (cases "re_match pat_angle (c # cs)")
      case (Some k)
      with b Cons show ?thesis
        by (simp only: re_sub_match(1) [OF taglike_angle Some])
    next
      case None
      then have nm: "c \<noteq> CHR ''<'' \<or> CHR ''>'' \<notin> set cs"
        by (simp add: match_angle split: if_splits)
      have "CHR ''>'' \<notin> set cs \<Longrightarrow> CHR ''>'' \<notin> set (re_sub pat_angle [] cs)"
        using set_re_sub_taglike [OF taglike_angle, of cs] by blast
      with nm a Cons show ?thesis
        by (auto simp only: re_sub_nomatch [OF None] no_tag.simps split: if_splits)
    qed
  qed
qed

lemma paired_after_gt:
  "paired True cs \<Longrightarrow> paired False (after_gt cs)"
  by (induction cs) (auto simp: after_gt_def split: if_splits)

lemma paired_True_gt: "paired True cs \<Longrightarrow> CHR ''>'' \<in> set cs"
  by (induction cs) (auto split: if_splits)

lemma paired_re_sub:
  assumes "taglike pat"
  shows "paired b s \<Longrightarrow> paired b (re_sub pat [] s)"
proof (induction s arbitrary: b rule: length_induct)
  case (1 s)
  show ?case
  proof (cases s)
    case Nil
    with 1 show ?thesis by simp
  next
    case (Cons c cs)
    have a: "paired b' cs \<Longrightarrow> paired b' (re_sub pat [] cs)" for b'
      using 1 Cons by simp
    have "length (after_gt cs) < length s"
      using length_after_gt [of cs] Cons by simp
    with 1 have b: "paired False (after_gt cs) \<Longrightarrow> paired False (re_sub pat [] (after_gt cs))"
      by blast
    show ?thesis
    proof (cases "re_match pat (c # cs)")
      case None
      from "1.prems" a show ?thesis
        unfolding Cons re_sub_nomatch [OF None] by (auto split: if_splits)
    next
      case (Some k)
      from re_sub_match(2) [OF assms Some] "1.prems" Cons
      have "b = False" and "paired True cs" by auto
      with b paired_after_gt show ?thesis
        unfolding Cons re_sub_match(1) [OF assms Some] by simp
    qed
  qed
qed

lemma paired_re_sub_angle:
  "paired False s \<Longrightarrow> bracket_free (re_sub pat_angle [] s)"
proof (induction s rule: length_induct)
  case (1 s)
  show ?case
  proof (cases s)
    case Nil
    then show ?thesis by (simp add: bracket_free_def)
  next
    case (Cons c cs)
    have a: "paired False cs \<Longrightarrow> bracket_free (re_sub pat_angle [] cs)"
      using 1 Cons by simp
    have "length (after_gt cs) < length s"
      using length_after_gt [of cs] Cons by simp
    with 1 have b: "paired False (after_gt cs) \<Longrightarrow> bracket_free (re_sub pat_angle [] (after_gt cs))"
      by blast
    show ?thesis
    proof (cases "re_match pat_angle (c # cs)")
      case None
      with "1.prems" Cons have "c \<noteq> CHR ''<''" "c \<noteq> CHR ''>''" "paired False cs"
        by (auto simp: match_angle dest: paired_True_gt split: if_splits)
      with a show ?thesis
        unfolding Cons re_sub_nomatch [OF None] by (simp add: bracket_free_def)
    next
      case (Some k)
      from re_sub_match(2) [OF taglike_angle Some] "1.prems" Cons
      have "paired True cs" by auto
      with b paired_after_gt show ?thesis
        unfolding Cons re_sub_match(1) [OF taglike_angle Some] by simp
    qed
  qed
qed

section \<open>Normalising whitespace\<close>

lemma isspace_space [simp]: "isspace CHR '' ''"
  by (simp add: isspace_def)

lemma not_isspace_brackets [simp]: "\<not> isspace CHR ''<''" "\<not> isspace CHR ''>''"
  by (simp_all add: isspace_def)

lemma star_spaces: "re_match [(isspace, Star)] cs = Some (length (takeWhile isspace cs))"
  by (induction cs) auto

lemma re_sub_spaces_Cons:
  "re_sub pat_spaces '' '' (c # cs) =
     (if isspace c then CHR '' '' # re_sub pat_spaces '' '' (dropWhile isspace cs)
      else c # re_sub pat_spaces '' '' cs)"
  by (simp add: pat_spaces_def star_spaces dropWhile_eq_drop)

lemma re_sub_spaces_word:
  "\<forall>c \<in> set w. \<not> isspace c \<Longrightarrow>
     re_sub pat_spaces '' '' (w @ r) = w @ re_sub pat_spaces '' '' r"
  by (induction w) (simp_all add: re_sub_spaces_Cons del: re_sub.simps)

lemma dropWhile_re_sub_spaces:
  "dropWhile isspace (re_sub pat_spaces '' '' s) = re_sub pat_spaces '' '' (dropWhile isspace s)"
proof (cases s)
  case Nil
  then show ?thesis by simp
next
  case (Cons c cs)
  show ?thesis
  proof (cases "isspace c")
    case False
    with Cons show ?thesis by (simp add: re_sub_spaces_Cons del: re_sub.simps)
  next
    case True
    have "dropWhile isspace (re_sub pat_spaces '' '' (dropWhile isspace cs))
            = re_sub pat_spaces '' '' (dropWhile isspace cs)"
    proof (cases "dropWhile isspace cs")
      case Nil
      show ?thesis unfolding Nil by simp
    next
      case (Cons d ds)
      then have "\<not> isspace d" using hd_dropWhile [of isspace cs] by auto
      then show ?thesis
        unfolding Cons by (simp add: re_sub_spaces_Cons del: re_sub.simps)
    qed
    with True Cons show ?thesis by (simp add: re_sub_spaces_Cons del: re_sub.simps)
  qed
qed


lemma stripr_append:
  "stripr x \<noteq> [] \<Longrightarrow> stripr (a @ x) = a @ stripr x"
  by (auto simp: stripr_def dropWhile_append)

lemma stripr_word:
  "\<forall>c \<in> set w. \<not> isspace c \<Longrightarrow> stripr w = w"
  by (cases "rev w") (auto simp: stripr_def)

lemma stripr_word_space:
  assumes "\<forall>c \<in> set w. \<not> isspace c"
  shows "stripr (w @ '' '') = w"
  using stripr_word [OF assms] by (simp add: stripr_def)

declare split_ws.simps [simp del]

lemma split_ws_Nil: "dropWhile isspace s = [] \<Longrightarrow> split_ws s = []"
  by (subst split_ws.simps) (simp only: list.case)

lemma split_ws_Cons:
  "dropWhile isspace s = c # cs \<Longrightarrow>
     split_ws s = (c # takeWhile (\<lambda>x. \<not> isspace x) cs) # split_ws (dropWhile (\<lambda>x. \<not> isspace x) cs)"
  by (subst split_ws.simps) (simp only: list.case)


lemma dropWhile_ConsD: "dropWhile P s = c # cs \<Longrightarrow> \<not> P c"
  by (induction s) (auto split: if_splits)

lemma proper_Nil: "proper []"
  by (simp add: proper_def)

lemma proper_Cons: "proper (w # ws) \<longleftrightarrow> w \<noteq> [] \<and> (\<forall>c \<in> set w. \<not> isspace c) \<and> proper ws"
  by (simp add: proper_def)

lemma proper_split_ws: "proper (split_ws s)"
proof (induction s rule: split_ws.induct)
  case (1 s)
  show ?case
  proof (cases "dropWhile isspace s")
    case Nil
    show ?thesis unfolding split_ws_Nil [OF Nil] by (rule proper_Nil)
  next
    case (Cons c cs)
    then have c: "\<not> isspace c" by (rule dropWhile_ConsD)
    have tw: "\<not> isspace x" if "x \<in> set (takeWhile (\<lambda>x. \<not> isspace x) cs)" for x
      using set_takeWhileD [OF that] by simp
    have IH: "proper (split_ws (dropWhile (\<lambda>x. \<not> isspace x) cs))"
      by (rule 1 [OF Cons])
    show ?thesis
      unfolding split_ws_Cons [OF Cons] proper_Cons using c tw IH by auto
  qed
qed

lemma join_Cons: "join sep (x # xs) = (if xs = [] then x else x @ sep @ join sep xs)"
  by (cases xs) simp_all

lemma join_eq_Nil: "proper ws \<Longrightarrow> join sep ws = [] \<longleftrightarrow> ws = []"
  by (cases ws) (auto simp: join_Cons proper_def)

lemma stripr_collapse:
  "stripr (re_sub pat_spaces '' '' (dropWhile isspace s)) = join '' '' (split_ws s)"
proof (induction s rule: split_ws.induct)
  case (1 s)
  show ?case
  proof (cases "dropWhile isspace s")
    case Nil
    show ?thesis unfolding split_ws_Nil [OF Nil] Nil by (simp add: stripr_def)
  next
    case (Cons c cs)
    define w where "w = c # takeWhile (\<lambda>x. \<not> isspace x) cs"
    define rest where "rest = dropWhile (\<lambda>x. \<not> isspace x) cs"
    have c: "\<not> isspace c" using Cons by (rule dropWhile_ConsD)
    have "\<not> isspace x" if "x \<in> set (takeWhile (\<lambda>x. \<not> isspace x) cs)" for x
      using set_takeWhileD [OF that] by simp
    with c have w: "\<forall>x \<in> set w. \<not> isspace x"
      by (auto simp: w_def)
    have d: "dropWhile isspace s = w @ rest"
      unfolding Cons w_def rest_def by simp
    have sp: "split_ws s = w # split_ws rest"
      unfolding split_ws_Cons [OF Cons] w_def rest_def by simp
    have IH: "stripr (re_sub pat_spaces '' '' (dropWhile isspace rest)) = join '' '' (split_ws rest)"
      using 1 [OF Cons] by (simp add: rest_def)
    have col: "re_sub pat_spaces '' '' (dropWhile isspace s) = w @ re_sub pat_spaces '' '' rest"
      by (simp add: d re_sub_spaces_word [OF w] del: re_sub.simps)
    show ?thesis
    proof (cases rest)
      case Nil
      then show ?thesis
        by (simp add: col sp split_ws_Nil stripr_word [OF w])
    next
      case (Cons r rs)
      then have "dropWhile (\<lambda>x. \<not> isspace x) cs = r # rs"
        by (simp only: rest_def)
      then have "\<not> \<not> isspace r"
        by (rule dropWhile_ConsD)
      then have r: "isspace r"
        by simp
      with Cons have colr: "re_sub pat_spaces '' '' rest
          = CHR '' '' # re_sub pat_spaces '' '' (dropWhile isspace rest)"
        by (simp add: re_sub_spaces_Cons del: re_sub.simps)
      show ?thesis
      proof (cases "split_ws rest = []")
        case True
        have dn: "dropWhile isspace rest = []"
        proof (cases "dropWhile isspace rest")
          case (Cons y ys)
          from True show ?thesis unfolding split_ws_Cons [OF Cons] by simp
        qed
        show ?thesis
          unfolding col colr sp True dn using stripr_word_space [OF w] by simp
      next
        case False
        then have ne: "stripr (re_sub pat_spaces '' '' (dropWhile isspace rest)) \<noteq> []"
          using IH join_eq_Nil [OF proper_split_ws, of "'' ''" rest] by simp
        have "stripr ((w @ '' '') @ re_sub pat_spaces '' '' (dropWhile isspace rest))
            = (w @ '' '') @ stripr (re_sub pat_spaces '' '' (dropWhile isspace rest))"
          by (rule stripr_append [OF ne])
        with False IH show ?thesis
          by (simp add: col colr sp join_Cons)
      qed
    qed
  qed
qed

theorem normalize_eq: "strip (re_sub pat_spaces '' '' s) = join '' '' (split_ws s)"
  using stripr_collapse [of s]
  by (simp add: strip_def stripr_def dropWhile_re_sub_spaces)


lemma split_ws_space: "isspace c \<Longrightarrow> split_ws (c # r) = split_ws r"
  by (subst split_ws.simps, subst (2) split_ws.simps) simp

lemma split_ws_word:
  assumes "w \<noteq> []" and "\<forall>c \<in> set w. \<not> isspace c" and "r = [] \<or> isspace (hd r)"
  shows "split_ws (w @ r) = w # split_ws r"
proof -
  from assms(1) obtain c cs where w: "w = c # cs" by (cases w) auto
  with assms(2) have c: "\<not> isspace c" and cs: "\<forall>x \<in> set cs. \<not> isspace x" by auto
  from c have d: "dropWhile isspace (w @ r) = c # (cs @ r)" by (simp add: w)
  have t: "takeWhile (\<lambda>x. \<not> isspace x) (cs @ r) = cs"
    using cs assms(3) by (cases r) (auto simp: takeWhile_append)
  have dr: "dropWhile (\<lambda>x. \<not> isspace x) (cs @ r) = r"
    using cs assms(3) by (cases r) (auto simp: dropWhile_append)
  have "split_ws (w @ r) = (c # takeWhile (\<lambda>x. \<not> isspace x) (cs @ r))
      # split_ws (dropWhile (\<lambda>x. \<not> isspace x) (cs @ r))"
    by (rule split_ws_Cons [OF d])
  then show ?thesis
    by (simp only: t dr w)
qed

lemma split_ws_join:
  "proper ws \<Longrightarrow> split_ws (join '' '' ws) = ws"
proof (induction ws)
  case Nil
  show ?case by (simp add: split_ws_Nil)
next
  case (Cons w ws)
  then have w: "w \<noteq> []" "\<forall>c \<in> set w. \<not> isspace c" and p: "proper ws"
    by (simp_all add: proper_Cons)
  show ?case
  proof (cases ws)
    case Nil
    with split_ws_word [OF w, of "[]"] show ?thesis by (simp add: split_ws_Nil)
  next
    case (Cons y ys)
    have "split_ws (w @ CHR '' '' # join '' '' ws) = w # split_ws (CHR '' '' # join '' '' ws)"
      by (rule split_ws_word [OF w]) simp
    with Cons.IH [OF p] Cons show ?thesis
      by (simp add: split_ws_space)
  qed
qed

lemma filter_join:
  "\<not> P CHR '' '' \<Longrightarrow> filter P (join '' '' ws) = filter P (concat ws)"
  by (induction ws) (simp_all add: join_Cons)

lemma concat_split_ws: "concat (split_ws s) = filter (\<lambda>x. \<not> isspace x) s"
proof (induction s rule: split_ws.induct)
  case (1 s)
  have s: "filter (\<lambda>x. \<not> isspace x) s = filter (\<lambda>x. \<not> isspace x) (dropWhile isspace s)"
    by (induction s) auto
  show ?case
  proof (cases "dropWhile isspace s")
    case Nil
    show ?thesis unfolding split_ws_Nil [OF Nil] s Nil by simp
  next
    case (Cons c cs)
    have c: "\<not> isspace c" using Cons by (rule dropWhile_ConsD)
    have IH: "concat (split_ws (dropWhile (\<lambda>x. \<not> isspace x) cs))
        = filter (\<lambda>x. \<not> isspace x) (dropWhile (\<lambda>x. \<not> isspace x) cs)"
      by (rule 1 [OF Cons])
    have "filter (\<lambda>x. \<not> isspace x) cs
        = takeWhile (\<lambda>x. \<not> isspace x) cs @ filter (\<lambda>x. \<not> isspace x) (dropWhile (\<lambda>x. \<not> isspace x) cs)"
      by (induction cs) auto
    with c IH show ?thesis
      unfolding split_ws_Cons [OF Cons] s Cons by simp
  qed
qed

lemma filter_normalized:
  assumes "\<And>c. P c \<Longrightarrow> \<not> isspace c"
  shows "filter P (join '' '' (split_ws s)) = filter P s"
proof -
  have "\<not> P CHR '' ''" using assms [of "CHR '' ''"] by auto
  then have "filter P (join '' '' (split_ws s)) = filter P (filter (\<lambda>x. \<not> isspace x) s)"
    by (simp add: filter_join concat_split_ws)
  also have "\<dots> = filter P s"
    using assms by (auto intro: filter_cong)
  finally show ?thesis .
qed

lemma no_tag_filter:
  assumes "P CHR ''<''" and "P CHR ''>''"
  shows "no_tag (filter P s) = no_tag s"
  using assms by (induction s) auto

lemma bracket_free_filter: "bracket_free s \<longleftrightarrow> filter is_bracket s = []"
  by (auto simp: bracket_free_def is_bracket_def filter_empty_conv)

lemma is_bracket_not_space: "is_bracket c \<Longrightarrow> \<not> isspace c"
  by (auto simp: is_bracket_def)

lemma no_tag_normalized: "no_tag (join '' '' (split_ws s)) = no_tag s"
proof -
  have "no_tag (join '' '' (split_ws s)) = no_tag (filter is_bracket (join '' '' (split_ws s)))"
    by (rule no_tag_filter [symmetric]) (simp_all add: is_bracket_def)
  also have "\<dots> = no_tag (filter is_bracket s)"
    by (simp add: filter_normalized [of is_bracket, OF is_bracket_not_space])
  also have "\<dots> = no_tag s"
    by (rule no_tag_filter) (simp_all add: is_bracket_def)
  finally show ?thesis .
qed

lemma bracket_free_normalized: "bracket_free (join '' '' (split_ws s)) = bracket_free s"
  by (simp add: bracket_free_filter filter_normalized [of is_bracket, OF is_bracket_not_space])

lemma join_append:
  "xs \<noteq> [] \<Longrightarrow> ys \<noteq> [] \<Longrightarrow> join sep (xs @ ys) = join sep xs @ sep @ join sep ys"
  by (induction xs) (simp_all add: join_Cons)

lemma join_join:
  "\<forall>ws \<in> set wss. ws \<noteq> [] \<Longrightarrow> join sep (map (join sep) wss) = join sep (concat wss)"
proof (induction wss)
  case Nil
  show ?case by simp
next
  case (Cons ws wss)
  show ?case
  proof (cases "wss = []")
    case True
    then show ?thesis by simp
  next
    case False
    with Cons.prems have "ws \<noteq> []" and "concat wss \<noteq> []" by auto
    from join_append [OF this] Cons False show ?thesis
      by (simp add: join_Cons)
  qed
qed

lemma proper_concat: "\<forall>ws \<in> set wss. proper ws \<Longrightarrow> proper (concat wss)"
  by (auto simp: proper_def)

lemma single_spaced_word:
  "\<forall>c \<in> set w. \<not> isspace c \<Longrightarrow> single_spaced r \<Longrightarrow> single_spaced (w @ r)"
proof (induction w)
  case Nil
  then show ?case by simp
next
  case (Cons c w)
  then have "single_spaced (w @ r)" and "\<not> isspace c" by simp_all
  then show ?case by (cases "w @ r") simp_all
qed

lemma single_spaced_join: "proper ws \<Longrightarrow> single_spaced (join '' '' ws)"
proof (induction ws)
  case Nil
  show ?case by simp
next
  case (Cons w ws)
  then have w: "\<forall>c \<in> set w. \<not> isspace c" and p: "proper ws"
    by (simp_all add: proper_Cons)
  show ?case
  proof (cases ws)
    case Nil
    with single_spaced_word [OF w, of "[]"] show ?thesis by simp
  next
    case (Cons y ys)
    with p obtain d ds where y: "y = d # ds" and d: "\<not> isspace d"
      by (cases y) (auto simp: proper_Cons)
    then have "hd (join '' '' ws) = d" and "join '' '' ws \<noteq> []"
      using Cons by (simp_all add: join_Cons)
    with d Cons.IH [OF p] have "single_spaced (CHR '' '' # join '' '' ws)"
      by (cases "join '' '' ws") simp_all
    with single_spaced_word [OF w] Cons show ?thesis by simp
  qed
qed


section \<open>Counting words; the cleaners in closed form\<close>

lemma wc_dropWhile: "wc True (dropWhile isspace s) = wc True s"
  by (induction s) auto

lemma wc_False_word: "wc False (dropWhile (\<lambda>x. \<not> isspace x) cs) = wc False cs"
  by (induction cs) auto

lemma wc_False_True: "r = [] \<or> isspace (hd r) \<Longrightarrow> wc False r = wc True r"
  by (cases r) auto

lemma length_split_ws: "length (split_ws s) = wc True s"
proof (induction s rule: split_ws.induct)
  case (1 s)
  show ?case
  proof (cases "dropWhile isspace s")
    case Nil
    have "wc True s = wc True (dropWhile isspace s)" by (simp add: wc_dropWhile)
    then show ?thesis unfolding split_ws_Nil [OF Nil] Nil by simp
  next
    case (Cons c cs)
    have c: "\<not> isspace c" using Cons by (rule dropWhile_ConsD)
    define rest where "rest = dropWhile (\<lambda>x. \<not> isspace x) cs"
    have IH: "length (split_ws rest) = wc True rest"
      unfolding rest_def by (rule 1 [OF Cons])
    have "rest = [] \<or> isspace (hd rest)"
    proof (cases rest)
      case (Cons r rs)
      then have "dropWhile (\<lambda>x. \<not> isspace x) cs = r # rs" by (simp only: rest_def)
      then have "\<not> \<not> isspace r" by (rule dropWhile_ConsD)
      with Cons show ?thesis by simp
    qed simp
    then have ft: "wc False rest = wc True rest" by (rule wc_False_True)
    have "wc True s = wc True (dropWhile isspace s)" by (simp add: wc_dropWhile)
    also have "\<dots> = Suc (wc False cs)" unfolding Cons using c by simp
    also have "wc False cs = wc False rest" unfolding rest_def by (simp add: wc_False_word)
    finally have "wc True s = Suc (wc True rest)" by (simp add: ft)
    with IH show ?thesis
      unfolding split_ws_Cons [OF Cons] rest_def [symmetric] by simp
  qed
qed

lemma wc_bounds: "wc False s \<le> wc True s" "wc True s \<le> Suc (wc False s)"
  by (cases s; simp)+

lemma wc_False_drop: "wc False (drop n s) \<le> wc False s"
proof (induction s arbitrary: n)
  case Nil
  show ?case by simp
next
  case (Cons c cs)
  show ?case
  proof (cases n)
    case 0
    then show ?thesis by simp
  next
    case (Suc m)
    have "wc False (drop m cs) \<le> wc False cs" by (rule Cons.IH)
    also have "\<dots> \<le> wc False (c # cs)" using wc_bounds(1) [of cs] by simp
    finally show ?thesis using Suc by simp
  qed
qed

lemma after_gt_drop:
  "after_gt cs = drop (Suc (length (takeWhile (\<lambda>x. x \<noteq> CHR ''>'') cs))) cs"
  by (simp add: after_gt_def dropWhile_eq_drop drop_Suc tl_drop)

lemma wc_after_gt: "wc b (after_gt cs) \<le> (if b then 1 else 0) + wc False cs"
proof -
  have a: "wc False (after_gt cs) \<le> wc False cs"
    unfolding after_gt_drop by (rule wc_False_drop)
  show ?thesis
  proof (cases b)
    case True
    with a wc_bounds(2) [of "after_gt cs"] show ?thesis by simp
  next
    case False
    with a show ?thesis by simp
  qed
qed

lemma wc_re_sub:
  assumes "taglike pat"
  shows "wc b (re_sub pat [] s) \<le> wc b s"
proof (induction s arbitrary: b rule: length_induct)
  case (1 s)
  show ?case
  proof (cases s)
    case Nil
    then show ?thesis by simp
  next
    case (Cons c cs)
    have a: "wc b' (re_sub pat [] cs) \<le> wc b' cs" for b'
      using 1 Cons by simp
    have "length (after_gt cs) < length s"
      using length_after_gt [of cs] Cons by simp
    with 1 have b: "wc b (re_sub pat [] (after_gt cs)) \<le> wc b (after_gt cs)"
      by blast
    show ?thesis
    proof (cases "re_match pat (c # cs)")
      case None
      show ?thesis
        unfolding Cons re_sub_nomatch [OF None] using a [of True] a [of False] by simp
    next
      case (Some k)
      have c: "c = CHR ''<''" by (rule re_sub_match(2) [OF assms Some])
      have "wc b (c # cs) = (if b then 1 else 0) + wc False cs"
        unfolding c by simp
      with b wc_after_gt [of b cs] show ?thesis
        unfolding Cons re_sub_match(1) [OF assms Some] by simp
    qed
  qed
qed

lemma clean_text_eq: "clean_text t = join '' '' (split_ws (re_sub pat_tag [] t))"
  by (simp add: clean_text_def normalize_eq)

lemma split_ws_clean_text: "split_ws (clean_text t) = split_ws (re_sub pat_tag [] t)"
  by (simp add: clean_text_eq split_ws_join proper_split_ws)

lemma length_split_ws_clean_text: "length (split_ws (clean_text t)) \<le> length (split_ws t)"
  by (simp add: split_ws_clean_text length_split_ws wc_re_sub [OF taglike_tag])

lemma split_ws_clean_text_id: "no_tag t \<Longrightarrow> split_ws (clean_text t) = split_ws t"
  by (simp add: split_ws_clean_text re_sub_no_tag_id [OF taglike_tag])

lemma clean_segment_text_eq:
  "clean_segment_text t =
     join '' '' (split_ws (re_sub pat_angle [] (re_sub pat_style [] (re_sub pat_timestamp [] t))))"
  by (simp add: clean_segment_text_def normalize_eq)

lemma no_tag_clean_segment_text: "no_tag (clean_segment_text t)"
  by (simp add: clean_segment_text_eq no_tag_normalized no_tag_re_sub_angle)

lemma single_spaced_clean_segment_text: "single_spaced (clean_segment_text t)"
  by (simp add: clean_segment_text_eq single_spaced_join proper_split_ws)

lemma bracket_free_clean_segment_text:
  "paired False t \<Longrightarrow> bracket_free (clean_segment_text t)"
  by (simp add: clean_segment_text_eq bracket_free_normalized paired_re_sub_angle paired_re_sub
      taglike_style taglike_timestamp)

lemma clean_segment_text_fixed:
  assumes "no_tag x" and "proper ws" and "x = join '' '' ws"
  shows "clean_segment_text x = x"
  using assms
  by (simp add: clean_segment_text_eq re_sub_no_tag_id taglike_style taglike_timestamp taglike_angle
      split_ws_join)

lemma clean_loop_eq:
  "clean_loop segs acc =
     (if \<forall>sg \<in> set segs. sg ''text'' \<noteq> None then Inr (acc @ cleaned_pieces segs)
      else Inl (KeyError ''text''))"
  by (induction segs arbitrary: acc) (auto simp: cleaned_pieces_def split: option.splits)

lemma clean_transcript_text_eq:
  "clean_transcript_text (Some segs) =
     (if \<forall>sg \<in> set segs. sg ''text'' \<noteq> None then Inr (join '' '' (cleaned_pieces segs))
      else Inl (KeyError ''text''))"
  by (cases segs) (simp_all add: clean_transcript_text_def clean_loop_eq cleaned_pieces_def)


section \<open>The cleaner: what it removes and what it leaves\<close>

lemmas eval_clean = clean_transcript_text_def seg_def clean_segment_text_def pat_defs strip_def
  class_defs

lemma bracket_free_join:
  "\<forall>p \<in> set ps. bracket_free p \<Longrightarrow> bracket_free (join '' '' ps)"
  by (induction ps) (auto simp: join_Cons bracket_free_def)

lemma cleaned_pieces_words:
  "\<exists>wss. cleaned_pieces segs = map (join '' '') wss \<and> (\<forall>ws \<in> set wss. proper ws)"
proof -
  define words_of :: "segment \<Rightarrow> string list" where
    "words_of sg = (case sg ''text'' of None \<Rightarrow> []
        | Some t \<Rightarrow> split_ws (re_sub pat_angle [] (re_sub pat_style [] (re_sub pat_timestamp [] t))))"
    for sg
  have "cleaned_pieces segs = map (join '' '') (map words_of segs)"
    by (simp add: cleaned_pieces_def words_of_def clean_segment_text_eq split: option.splits)
  moreover have "\<forall>ws \<in> set (map words_of segs). proper ws"
    by (auto simp: words_of_def proper_split_ws proper_Nil split: option.splits)
  ultimately show ?thesis by blast
qed

lemma joined_pieces_words:
  assumes "length segs \<le> 1 \<or> [] \<notin> set (cleaned_pieces segs)"
  shows "\<exists>ws. proper ws \<and> join '' '' (cleaned_pieces segs) = join '' '' ws"
proof -
  from cleaned_pieces_words [of segs] obtain wss
    where wss: "cleaned_pieces segs = map (join '' '') wss" and p: "\<forall>ws \<in> set wss. proper ws"
    by blast
  have len: "length wss = length segs"
    using wss by (metis cleaned_pieces_def length_map)
  show ?thesis
  proof (cases "[] \<notin> set (cleaned_pieces segs)")
    case True
    have "ws \<noteq> []" if "ws \<in> set wss" for ws
    proof
      assume "ws = []"
      with that have "[] \<in> set (map (join '' '') wss)" by force
      with True wss show False by simp
    qed
    then have "join '' '' (map (join '' '') wss) = join '' '' (concat wss)"
      by (intro join_join) blast
    moreover have "proper (concat wss)" using p by (rule proper_concat)
    ultimately show ?thesis unfolding wss by blast
  next
    case False
    with assms len have "length wss \<le> 1" by simp
    then consider "wss = []" | ws where "wss = [ws]"
      by (cases wss; cases "tl wss") auto
    then show ?thesis
    proof cases
      case 1
      then show ?thesis unfolding wss using proper_Nil by (intro exI [of _ "[]"]) simp
    next
      case 2
      with p have "proper ws" by simp
      with 2 show ?thesis unfolding wss by (intro exI [of _ ws]) simp
    qed
  qed
qed

lemma cleaned_pieces_props:
  "p \<in> set (cleaned_pieces segs) \<Longrightarrow> no_tag p \<and> single_spaced p"
  by (auto simp: cleaned_pieces_def no_tag_clean_segment_text single_spaced_clean_segment_text
      split: option.splits)

text \<open>
  C1 (as amended).  For a non-empty list of segments that all have a text, the cleaner
  returns the cleaned texts joined by single spaces.  No cleaned text has a \<^verbatim>\<open><\<close> followed
  later by a \<^verbatim>\<open>>\<close>, and none has two adjacent whitespace characters.  When the angle brackets
  of every text come in pairs, as in the markup \<^verbatim>\<open><00:00:11.200>\<close> and \<^verbatim>\<open><c>...</c>\<close>, the
  result has no angle bracket at all; when no segment cleans to the empty string, the result
  has no run of more than one whitespace character.
\<close>

theorem clean_transcript_text_markup:
  assumes "segs \<noteq> []" and "\<forall>sg \<in> set segs. sg ''text'' \<noteq> None"
  shows "\<exists>out. clean_transcript_text (Some segs) = Inr out
      \<and> out = join '' '' (cleaned_pieces segs)
      \<and> (\<forall>p \<in> set (cleaned_pieces segs). no_tag p \<and> single_spaced p)
      \<and> ((\<forall>sg \<in> set segs. \<forall>t. sg ''text'' = Some t \<longrightarrow> paired False t) \<longrightarrow> bracket_free out)
      \<and> ([] \<notin> set (cleaned_pieces segs) \<longrightarrow> single_spaced out)"
proof -
  let ?out = "join '' '' (cleaned_pieces segs)"
  have r: "clean_transcript_text (Some segs) = Inr ?out"
    using assms(2) by (simp add: clean_transcript_text_eq)
  have pp: "\<forall>p \<in> set (cleaned_pieces segs). no_tag p \<and> single_spaced p"
    using cleaned_pieces_props by blast
  have bf: "bracket_free ?out" if h: "\<forall>sg \<in> set segs. \<forall>t. sg ''text'' = Some t \<longrightarrow> paired False t"
  proof (rule bracket_free_join, rule ballI)
    fix p assume "p \<in> set (cleaned_pieces segs)"
    then obtain sg where sg: "sg \<in> set segs"
      and p: "p = (case sg ''text'' of None \<Rightarrow> [] | Some t \<Rightarrow> clean_segment_text t)"
      by (auto simp: cleaned_pieces_def)
    show "bracket_free p"
    proof (cases "sg ''text''")
      case None
      with p show ?thesis by (simp add: bracket_free_def)
    next
      case (Some t)
      with h sg have "paired False t" by blast
      with p Some show ?thesis by (simp add: bracket_free_clean_segment_text)
    qed
  qed
  have ss: "single_spaced ?out" if "[] \<notin> set (cleaned_pieces segs)"
  proof -
    from that joined_pieces_words [of segs] obtain ws
      where "proper ws" and "?out = join '' '' ws" by blast
    then show ?thesis by (simp add: single_spaced_join)
  qed
  from r pp bf ss show ?thesis by blast
qed

text \<open>An instance with both kinds of markup.\<close>

theorem clean_transcript_text_markup_witness:
  "clean_transcript_text (Some [seg ''<00:00:11.200>Hello <c>big</c>'', seg ''  world ''])
      = Inr ''Hello big world''
   \<and> bracket_free ''Hello big world'' \<and> single_spaced ''Hello big world''"
proof -
  let ?segs = "[seg ''<00:00:11.200>Hello <c>big</c>'', seg ''  world '']"
  have h1: "?segs \<noteq> []" by simp
  have h2: "\<forall>sg \<in> set ?segs. sg ''text'' \<noteq> None" by (simp add: seg_def)
  have ev: "clean_transcript_text (Some ?segs) = Inr ''Hello big world''"
    by (simp add: eval_clean)
  have h3: "\<forall>sg \<in> set ?segs. \<forall>t. sg ''text'' = Some t \<longrightarrow> paired False t"
    by (simp add: seg_def)
  have cp: "cleaned_pieces ?segs = [''Hello big'', ''world'']"
    by (simp add: cleaned_pieces_def eval_clean)
  from clean_transcript_text_markup [OF h1 h2] ev h3 cp show ?thesis
    by auto
qed

text \<open>
  The claim as first stated fails: a \<^verbatim>\<open>>\<close> outside any tag survives, and a segment that
  cleans to nothing leaves two spaces in a row.
\<close>

theorem clean_transcript_text_markup_counterexample:
  "clean_transcript_text (Some [seg ''<c>a</c> > b'', seg ''<00:00:11.200>'', seg ''c''])
      = Inr ''a > b  c''
   \<and> CHR ''>'' \<in> set ''a > b  c'' \<and> \<not> single_spaced ''a > b  c''"
  by (simp add: eval_clean)



text \<open>
  C4 (as amended).  Let the cleaner return \<open>out\<close> on a list of segments.  If the list has at
  most one segment, or if no segment cleans to the empty string and no \<^verbatim>\<open><\<close> of \<open>out\<close> is
  followed later by a \<^verbatim>\<open>>\<close>, then cleaning the single segment whose text is \<open>out\<close> returns
  \<open>out\<close> unchanged.
\<close>

theorem clean_transcript_text_idempotent:
  assumes "clean_transcript_text (Some segs) = Inr out"
    and "length segs \<le> 1 \<or> ([] \<notin> set (cleaned_pieces segs) \<and> no_tag out)"
  shows "clean_transcript_text (Some [seg out]) = Inr out"
proof -
  from assms(1) have all: "\<forall>sg \<in> set segs. sg ''text'' \<noteq> None"
    and out: "out = join '' '' (cleaned_pieces segs)"
    by (auto simp: clean_transcript_text_eq split: if_splits)
  from assms(2) have "length segs \<le> 1 \<or> [] \<notin> set (cleaned_pieces segs)" by blast
  from joined_pieces_words [OF this] out obtain ws
    where ws: "proper ws" "out = join '' '' ws" by auto
  have "no_tag out"
  proof (cases "length segs \<le> 1")
    case False
    with assms(2) show ?thesis by simp
  next
    case True
    then consider "segs = []" | sg where "segs = [sg]"
      by (cases segs; cases "tl segs") auto
    then show ?thesis
    proof cases
      case 1
      with out show ?thesis by (simp add: cleaned_pieces_def)
    next
      case 2
      with out have "out \<in> set (cleaned_pieces segs)" by (simp add: cleaned_pieces_def)
      then show ?thesis using cleaned_pieces_props by blast
    qed
  qed
  from clean_segment_text_fixed [OF this ws] show ?thesis
    by (simp add: clean_transcript_text_eq cleaned_pieces_def seg_def)
qed

text \<open>An instance with two segments.\<close>

theorem clean_transcript_text_idempotent_witness:
  "clean_transcript_text (Some [seg ''<00:00:11.200>Hello <c>big</c>'', seg ''  world ''])
      = Inr ''Hello big world''
   \<and> clean_transcript_text (Some [seg ''Hello big world'']) = Inr ''Hello big world''"
proof -
  let ?segs = "[seg ''<00:00:11.200>Hello <c>big</c>'', seg ''  world '']"
  have ev: "clean_transcript_text (Some ?segs) = Inr ''Hello big world''"
    by (simp add: eval_clean)
  have cp: "cleaned_pieces ?segs = [''Hello big'', ''world'']"
    by (simp add: cleaned_pieces_def eval_clean)
  have h: "length ?segs \<le> 1 \<or> ([] \<notin> set (cleaned_pieces ?segs) \<and> no_tag ''Hello big world'')"
    unfolding cp by simp
  from clean_transcript_text_idempotent [OF ev h] ev show ?thesis
    by simp
qed

text \<open>
  Without the side condition the cleaner is not idempotent: an empty cleaned text in the
  middle leaves a double space, which the second pass collapses.
\<close>

theorem clean_transcript_text_idempotent_counterexample:
  "clean_transcript_text (Some [seg ''a'', seg ''<c></c>'', seg ''b'']) = Inr ''a  b''
   \<and> clean_transcript_text (Some [seg ''a  b'']) = Inr ''a b''
   \<and> ''a b'' \<noteq> ''a  b''"
  by (simp add: eval_clean)



text \<open>
  C5.  The cleaner returns the empty string on \<^verbatim>\<open>None\<close> and on the empty list.  On every
  list of segments of the data model, which all have a text, it returns a string without
  raising: the cleaned texts joined by single spaces.
\<close>

theorem clean_transcript_text_total:
  "clean_transcript_text None = Inr []
   \<and> clean_transcript_text (Some []) = Inr []
   \<and> ((\<forall>sg \<in> set segs. sg ''text'' \<noteq> None)
        \<longrightarrow> clean_transcript_text (Some segs) = Inr (join '' '' (cleaned_pieces segs)))"
  by (simp add: clean_transcript_text_eq cleaned_pieces_def) (simp add: clean_transcript_text_def)

text \<open>An instance.\<close>

theorem clean_transcript_text_total_witness:
  "clean_transcript_text None = Inr []
   \<and> clean_transcript_text (Some []) = Inr []
   \<and> clean_transcript_text (Some [seg ''So <c>here</c>'', seg ''we go'']) = Inr ''So here we go''"
proof -
  let ?segs = "[seg ''So <c>here</c>'', seg ''we go'']"
  have h: "\<forall>sg \<in> set ?segs. sg ''text'' \<noteq> None" by (simp add: seg_def)
  have cp: "join '' '' (cleaned_pieces ?segs) = ''So here we go''"
    by (simp add: cleaned_pieces_def eval_clean)
  from clean_transcript_text_total [of ?segs] h cp show ?thesis
    by simp
qed

text \<open>
  C6.  The two segments \<^verbatim>\<open>"<00:00:00.000> Hello"\<close> and \<^verbatim>\<open>"world  "\<close> clean to exactly
  \<^verbatim>\<open>"Hello world"\<close>.
\<close>

theorem clean_hello_world:
  "clean_transcript_text (Some [seg ''<00:00:00.000> Hello'', seg ''world  ''])
     = Inr ''Hello world''"
  by (simp add: eval_clean)

section \<open>The fallback summarizer\<close>

declare str_nat.simps [simp del]

lemma str_nat_small: "n < 10 \<Longrightarrow> str_nat n = [digit_char n]"
  by (subst str_nat.simps) simp

lemma str_nat_0: "str_nat 0 = ''0''"
  by (simp add: str_nat_small digit_char_def)

lemma str_nat_10: "str_nat 10 = ''10''"
  by (subst str_nat.simps) (simp add: str_nat_small digit_char_def)

lemma str_nat_50: "str_nat 50 = ''50''"
  by (subst str_nat.simps) (simp add: str_nat_small digit_char_def)

lemma fallback_summarize_lt50:
  "length (split_ws (clean_text text)) < 50 \<Longrightarrow>
     fallback_summarize text title = short_notice (length (split_ws (clean_text text)))"
  by (simp add: fallback_summarize_def Let_def)

lemma fallback_summarize_ge50:
  "50 \<le> length (split_ws (clean_text text)) \<Longrightarrow>
     fallback_summarize text title =
       report (title_text_of title) (length (split_ws (clean_text text)))
         (beginning_of (split_ws (clean_text text)))
         (middle_of (split_ws (clean_text text)))
         (end_of (split_ws (clean_text text)))"
  by (simp add: fallback_summarize_def Let_def)

lemma middle_start_of_eq: "middle_start_of n = n div 2 - 50"
  by (simp add: middle_start_of_def)

lemma end_start_of_eq: "end_start_of n = n - 100"
  by (simp add: end_start_of_def)

lemma excerpts_eq:
  "beginning_of ws = join '' '' (take 100 ws)"
  "middle_of ws = join '' '' (take 100 (drop (length ws div 2 - 50) ws))"
  "end_of ws = join '' '' (drop (length ws - 100) ws)"
  by (simp_all add: beginning_of_def middle_of_def end_of_def slice_def middle_start_of_eq
      end_start_of_eq)

lemma excerpts_short:
  assumes "length ws \<le> 100"
  shows "beginning_of ws = join '' '' ws" "middle_of ws = join '' '' ws" "end_of ws = join '' '' ws"
  using assms by (simp_all add: excerpts_eq)

lemma clean_text_fifty: "clean_text fifty_words = fifty_words"
  by (simp add: clean_text_def fifty_words_def pat_defs strip_def class_defs)

lemma split_ws_fifty: "length (split_ws fifty_words) = 50"
  by (simp add: fifty_words_def split_ws.simps class_defs)

lemma short_notice_sublist:
  "sublist (''only '' @ str_nat n @ '' words'') (short_notice n)"
  unfolding short_notice_def sublist_def
  by (intro exI [of _ "''This video has very little spoken content. The transcript contains ''"]
      exI [of _ "''.''"]) simp

lemma report_sublists:
  "sublist (''approximately '' @ str_nat n @ '' words'') (report tt n b m e)"
  "sublist (''Beginning excerpt: '' @ b @ ''...'') (report tt n b m e)"
  "sublist (''Middle excerpt: '' @ m @ ''...'') (report tt n b m e)"
  "sublist (''Ending excerpt: '' @ e @ ''...'') (report tt n b m e)"
  "prefix tt (report tt n b m e)"
proof -
  show "sublist (''approximately '' @ str_nat n @ '' words'') (report tt n b m e)"
    unfolding report_def sublist_def
    by (intro exI [of _ "tt @ ''This is a basic summary as the AI summarization service is unavailable.'' @ nl @ nl @ ''The video contains ''"]
        exI [of _ "'' of spoken content.'' @ nl @ nl
          @ ''Beginning excerpt: '' @ b @ ''...'' @ nl @ nl
          @ ''Middle excerpt: '' @ m @ ''...'' @ nl @ nl
          @ ''Ending excerpt: '' @ e @ ''...'' @ nl"]) simp
  show "sublist (''Beginning excerpt: '' @ b @ ''...'') (report tt n b m e)"
    unfolding report_def sublist_def
    by (intro exI [of _ "tt @ ''This is a basic summary as the AI summarization service is unavailable.'' @ nl @ nl
          @ ''The video contains approximately '' @ str_nat n @ '' words of spoken content.'' @ nl @ nl"]
        exI [of _ "nl @ nl @ ''Middle excerpt: '' @ m @ ''...'' @ nl @ nl
          @ ''Ending excerpt: '' @ e @ ''...'' @ nl"]) simp
  show "sublist (''Middle excerpt: '' @ m @ ''...'') (report tt n b m e)"
    unfolding report_def sublist_def
    by (intro exI [of _ "tt @ ''This is a basic summary as the AI summarization service is unavailable.'' @ nl @ nl
          @ ''The video contains approximately '' @ str_nat n @ '' words of spoken content.'' @ nl @ nl
          @ ''Beginning excerpt: '' @ b @ ''...'' @ nl @ nl"]
        exI [of _ "nl @ nl @ ''Ending excerpt: '' @ e @ ''...'' @ nl"]) simp
  show "sublist (''Ending excerpt: '' @ e @ ''...'') (report tt n b m e)"
    unfolding report_def sublist_def
    by (intro exI [of _ "tt @ ''This is a basic summary as the AI summarization service is unavailable.'' @ nl @ nl
          @ ''The video contains approximately '' @ str_nat n @ '' words of spoken content.'' @ nl @ nl
          @ ''Beginning excerpt: '' @ b @ ''...'' @ nl @ nl
          @ ''Middle excerpt: '' @ m @ ''...'' @ nl @ nl"]
        exI [of _ "nl"]) simp
  show "prefix tt (report tt n b m e)"
    unfolding report_def by simp
qed

lemma match_tag:
  "re_match pat_tag (c # cs) =
     (if c = CHR ''<'' \<and> cs \<noteq> [] \<and> hd cs \<noteq> CHR ''>'' \<and> CHR ''>'' \<in> set cs
      then Some (Suc (Suc (length (takeWhile (\<lambda>x. x \<noteq> CHR ''>'') cs)))) else None)"
  by (cases cs) (auto simp: pat_tag_def star_gt lit_def not_gt_def)

lemma re_sub_tag_stable: "stable s \<Longrightarrow> re_sub pat_tag [] s = s"
proof (induction s)
  case Nil
  show ?case by simp
next
  case (Cons c cs)
  then have "re_match pat_tag (c # cs) = None"
    by (simp add: match_tag)
  with Cons show ?case
    by (simp only: re_sub_nomatch stable.simps)
qed

lemma hd_re_sub_gt: "re_sub pat_tag [] (CHR ''>'' # cs) = CHR ''>'' # re_sub pat_tag [] cs"
  by (rule re_sub_nomatch) (simp add: match_tag)

lemma stable_re_sub_tag: "stable (re_sub pat_tag [] s)"
proof (induction s rule: length_induct)
  case (1 s)
  show ?case
  proof (cases s)
    case Nil
    then show ?thesis by simp
  next
    case (Cons c cs)
    have a: "stable (re_sub pat_tag [] cs)"
      using 1 Cons by simp
    have "length (after_gt cs) < length s"
      using length_after_gt [of cs] Cons by simp
    with 1 have b: "stable (re_sub pat_tag [] (after_gt cs))"
      by blast
    show ?thesis
    proof (cases "re_match pat_tag (c # cs)")
      case (Some k)
      with b Cons show ?thesis
        by (simp only: re_sub_match(1) [OF taglike_tag Some])
    next
      case None
      let ?r = "re_sub pat_tag [] cs"
      have "\<not> (c = CHR ''<'' \<and> ?r \<noteq> [] \<and> hd ?r \<noteq> CHR ''>'' \<and> CHR ''>'' \<in> set ?r)"
      proof
        assume h: "c = CHR ''<'' \<and> ?r \<noteq> [] \<and> hd ?r \<noteq> CHR ''>'' \<and> CHR ''>'' \<in> set ?r"
        then have "CHR ''>'' \<in> set cs"
          using set_re_sub_taglike [OF taglike_tag, of cs] by blast
        moreover from h have "cs \<noteq> []" by auto
        ultimately have "hd cs = CHR ''>''"
          using None h by (simp add: match_tag split: if_splits)
        with \<open>cs \<noteq> []\<close> obtain ds where "cs = CHR ''>'' # ds" by (cases cs) auto
        then have "hd ?r = CHR ''>''" by (simp only: hd_re_sub_gt list.sel)
        with h show False by simp
      qed
      with a show ?thesis
        unfolding Cons re_sub_nomatch [OF None] by simp
    qed
  qed
qed

lemma stable_append_right: "stable (a @ b) \<Longrightarrow> stable b"
  by (induction a) auto

lemma stable_dropWhile: "stable s \<Longrightarrow> stable (dropWhile P s)"
  using stable_append_right [of "takeWhile P s" "dropWhile P s"] by simp

lemma stable_swap:
  assumes "stable (w @ y)" and "stable y'"
    and "CHR ''>'' \<in> set y' \<Longrightarrow> CHR ''>'' \<in> set y"
    and "y = [] \<or> hd y \<noteq> CHR ''>''"
  shows "stable (w @ y')"
  using assms(1)
proof (induction w)
  case Nil
  show ?case using assms(2) by simp
next
  case (Cons c w)
  then have IH: "stable (w @ y')" by simp
  have "\<not> (c = CHR ''<'' \<and> w @ y' \<noteq> [] \<and> hd (w @ y') \<noteq> CHR ''>''
      \<and> CHR ''>'' \<in> set (w @ y'))"
  proof
    assume h: "c = CHR ''<'' \<and> w @ y' \<noteq> [] \<and> hd (w @ y') \<noteq> CHR ''>''
      \<and> CHR ''>'' \<in> set (w @ y')"
    from Cons.prems have n: "\<not> (c = CHR ''<'' \<and> w @ y \<noteq> [] \<and> hd (w @ y) \<noteq> CHR ''>''
      \<and> CHR ''>'' \<in> set (w @ y))"
      by simp
    show False
    proof (cases w)
      case Nil
      with h have "CHR ''>'' \<in> set y'" by simp
      then have g: "CHR ''>'' \<in> set y" by (rule assms(3))
      then have "y \<noteq> []" by auto
      with assms(4) have "hd y \<noteq> CHR ''>''" by simp
      with n h g Nil \<open>y \<noteq> []\<close> show False by simp
    next
      case (Cons d ds)
      with h have "hd (w @ y) \<noteq> CHR ''>''" "w @ y \<noteq> []" by simp_all
      moreover from h assms(3) have "CHR ''>'' \<in> set (w @ y)" by auto
      ultimately show False using n h by simp
    qed
  qed
  with IH show ?case by simp
qed

lemma gt_in_normalized:
  "CHR ''>'' \<in> set (join '' '' (split_ws s)) \<longleftrightarrow> CHR ''>'' \<in> set s"
proof -
  have "filter (\<lambda>c. c = CHR ''>'') (join '' '' (split_ws s)) = filter (\<lambda>c. c = CHR ''>'') s"
    by (rule filter_normalized) simp
  then have "set (filter (\<lambda>c. c = CHR ''>'') (join '' '' (split_ws s)))
      = set (filter (\<lambda>c. c = CHR ''>'') s)"
    by simp
  then show ?thesis by auto
qed

lemma stable_normalized: "stable s \<Longrightarrow> stable (join '' '' (split_ws s))"
proof (induction s rule: split_ws.induct)
  case (1 s)
  show ?case
  proof (cases "dropWhile isspace s")
    case Nil
    show ?thesis unfolding split_ws_Nil [OF Nil] by simp
  next
    case (Cons c cs)
    define w where "w = c # takeWhile (\<lambda>x. \<not> isspace x) cs"
    define rest where "rest = dropWhile (\<lambda>x. \<not> isspace x) cs"
    let ?J = "join '' '' (split_ws rest)"
    define y' where "y' = (if split_ws rest = [] then [] else CHR '' '' # ?J)"
    have d: "dropWhile isspace s = w @ rest"
      unfolding Cons w_def rest_def by simp
    have sp: "split_ws s = w # split_ws rest"
      unfolding split_ws_Cons [OF Cons] w_def rest_def by simp
    from "1.prems" have sd: "stable (w @ rest)"
      unfolding d [symmetric] by (rule stable_dropWhile)
    then have sr: "stable rest" by (rule stable_append_right)
    have IH: "stable ?J"
      unfolding rest_def using sr by (intro "1.IH" [OF Cons]) (simp add: rest_def)
    have sy: "stable y'"
      using IH by (simp add: y'_def)
    have gy: "CHR ''>'' \<in> set rest" if "CHR ''>'' \<in> set y'"
    proof -
      from that have "CHR ''>'' \<in> set ?J" by (simp add: y'_def split: if_splits)
      then show ?thesis by (simp only: gt_in_normalized)
    qed
    have hr: "rest = [] \<or> hd rest \<noteq> CHR ''>''"
    proof (cases rest)
      case (Cons r rs)
      then have "dropWhile (\<lambda>x. \<not> isspace x) cs = r # rs" by (simp only: rest_def)
      then have "\<not> \<not> isspace r" by (rule dropWhile_ConsD)
      then have "r \<noteq> CHR ''>''" by auto
      with Cons show ?thesis by simp
    qed simp
    have "stable (w @ y')"
      using sd sy gy hr by (rule stable_swap)
    moreover have "join '' '' (split_ws s) = w @ y'"
      unfolding sp y'_def by (simp add: join_Cons)
    ultimately show ?thesis by simp
  qed
qed

lemma stable_clean_text: "stable (clean_text t)"
  unfolding clean_text_eq by (rule stable_normalized) (rule stable_re_sub_tag)

lemma re_sub_tag_clean_text: "re_sub pat_tag [] (clean_text t) = clean_text t"
  by (rule re_sub_tag_stable) (rule stable_clean_text)

lemma clean_text_idem: "clean_text (clean_text t) = clean_text t"
proof -
  have "clean_text (clean_text t) = join '' '' (split_ws (clean_text t))"
    by (simp only: clean_text_eq [of "clean_text t"] re_sub_tag_clean_text)
  also have "\<dots> = join '' '' (split_ws (re_sub pat_tag [] t))"
    by (simp only: split_ws_clean_text)
  also have "\<dots> = clean_text t"
    by (simp only: clean_text_eq)
  finally show ?thesis .
qed

lemma split_ws_tagless: "re_sub pat_tag [] t = t \<Longrightarrow> split_ws (clean_text t) = split_ws t"
  by (simp add: split_ws_clean_text)

text \<open>
  C2.  The summarizer is handed cleaned text: \<^verbatim>\<open>agno_summarize\<close> passes the text it cleaned
  with the same two substitutions, and in such a text the substitution of line 130 finds
  no tag (cleaning it again changes nothing).  For every text without such a tag that
  splits into fewer than 50 words, with or without a title, the fallback summarizer returns
  the short notice stating exactly that word count; a transcript of 10 words gives a notice
  containing \<^verbatim>\<open>only 10 words\<close>.  On any text of fewer than 50 words the notice is returned,
  with the word count of the text as cleaned by lines 130 and 131.
\<close>

theorem fallback_summarize_short:
  "re_sub pat_tag [] (clean_text raw) = clean_text raw
   \<and> clean_text (clean_text raw) = clean_text raw
   \<and> (re_sub pat_tag [] text = text \<and> length (split_ws text) < 50 \<longrightarrow>
        fallback_summarize text title =
          ''This video has very little spoken content. The transcript contains only ''
          @ str_nat (length (split_ws text)) @ '' words.'')
   \<and> (re_sub pat_tag [] text = text \<and> length (split_ws text) = 10 \<longrightarrow>
        sublist ''only 10 words'' (fallback_summarize text title))
   \<and> (length (split_ws (clean_text raw)) < 50 \<longrightarrow>
        fallback_summarize (clean_text raw) title =
          ''This video has very little spoken content. The transcript contains only ''
          @ str_nat (length (split_ws (clean_text raw))) @ '' words.'')
   \<and> (length (split_ws text) < 50 \<longrightarrow>
        fallback_summarize text title =
          ''This video has very little spoken content. The transcript contains only ''
          @ str_nat (length (split_ws (clean_text text))) @ '' words.''
        \<and> length (split_ws (clean_text text)) \<le> length (split_ws text))"
proof -
  have any: "fallback_summarize x title = short_notice (length (split_ws (clean_text x)))
      \<and> length (split_ws (clean_text x)) \<le> length (split_ws x)"
    if "length (split_ws x) < 50" for x
  proof -
    have le: "length (split_ws (clean_text x)) \<le> length (split_ws x)"
      by (rule length_split_ws_clean_text)
    with that have "length (split_ws (clean_text x)) < 50" by simp
    then have "fallback_summarize x title = short_notice (length (split_ws (clean_text x)))"
      by (rule fallback_summarize_lt50)
    with le show ?thesis by simp
  qed
  have tagless: "fallback_summarize x title = short_notice (length (split_ws x))"
    if "re_sub pat_tag [] x = x" and "length (split_ws x) < 50" for x
    using any [OF that(2)] split_ws_tagless [OF that(1)] by simp
  have ten: "sublist ''only 10 words'' (fallback_summarize x title)"
    if "re_sub pat_tag [] x = x" and "length (split_ws x) = 10" for x
  proof -
    from that have "fallback_summarize x title = short_notice 10"
      using tagless [of x] by simp
    with short_notice_sublist [of 10] show ?thesis
      by (simp add: str_nat_10)
  qed
  have cleaned: "fallback_summarize (clean_text raw) title
      = short_notice (length (split_ws (clean_text raw)))"
    if "length (split_ws (clean_text raw)) < 50"
    using tagless [OF re_sub_tag_clean_text that] .
  show ?thesis
    using re_sub_tag_clean_text [of raw] clean_text_idem [of raw] any [of "text"]
      tagless [of "text"] ten [of "text"] cleaned
    by (simp add: short_notice_def)
qed

text \<open>A transcript of ten words.\<close>

theorem fallback_summarize_short_witness:
  "fallback_summarize ''one two three four five six seven eight nine ten'' (Some ''Talk'') =
     ''This video has very little spoken content. The transcript contains only 10 words.''
   \<and> sublist ''only 10 words''
        (fallback_summarize ''one two three four five six seven eight nine ten'' (Some ''Talk''))"
proof -
  let ?t = "''one two three four five six seven eight nine ten''"
  have n: "length (split_ws ?t) = 10"
    by (simp add: split_ws.simps class_defs)
  have nt: "re_sub pat_tag [] ?t = ?t"
    by (simp add: pat_defs class_defs)
  note th = fallback_summarize_short [of ?t ?t "Some ''Talk''"]
  from th nt n have "fallback_summarize ?t (Some ''Talk'') =
      ''This video has very little spoken content. The transcript contains only ''
      @ str_nat (length (split_ws ?t)) @ '' words.''"
    by simp
  then have a: "fallback_summarize ?t (Some ''Talk'') =
      ''This video has very little spoken content. The transcript contains only 10 words.''"
    unfolding n by (simp add: str_nat_10)
  from th nt n have "sublist ''only 10 words'' (fallback_summarize ?t (Some ''Talk''))"
    by blast
  with a show ?thesis by (simp only: simp_thms)
qed

text \<open>
  C3 (as amended).  For every text that has at least 50 words after tag removal, the
  fallback summarizer returns the report with that word count and three excerpts: the
  first 100 words (all of them when there are fewer), up to 100 words from index
  \<open>max 0 (total div 2 - 50)\<close>, and the last 100 words (all of them when there are fewer).  A
  title that is not empty opens the report.  Up to 100 words the three excerpts are the
  whole text; from 102 words on they start at three different indices.
\<close>

theorem fallback_summarize_report:
  assumes "50 \<le> length (split_ws (clean_text text))"
  shows "fallback_summarize text title =
           report (title_text_of title) (length (split_ws (clean_text text)))
             (join '' '' (take 100 (split_ws (clean_text text))))
             (join '' '' (take 100 (drop (length (split_ws (clean_text text)) div 2 - 50)
                (split_ws (clean_text text)))))
             (join '' '' (drop (length (split_ws (clean_text text)) - 100)
                (split_ws (clean_text text))))
     \<and> sublist (''approximately '' @ str_nat (length (split_ws (clean_text text))) @ '' words'')
          (fallback_summarize text title)
     \<and> sublist (''Beginning excerpt: '' @ join '' '' (take 100 (split_ws (clean_text text))) @ ''...'')
          (fallback_summarize text title)
     \<and> sublist (''Middle excerpt: ''
            @ join '' '' (take 100 (drop (length (split_ws (clean_text text)) div 2 - 50)
                (split_ws (clean_text text)))) @ ''...'')
          (fallback_summarize text title)
     \<and> sublist (''Ending excerpt: ''
            @ join '' '' (drop (length (split_ws (clean_text text)) - 100)
                (split_ws (clean_text text))) @ ''...'')
          (fallback_summarize text title)
     \<and> (\<forall>t. title = Some t \<and> t \<noteq> [] \<longrightarrow> prefix (''Video: '' @ t) (fallback_summarize text title))
     \<and> (no_tag text \<longrightarrow> split_ws (clean_text text) = split_ws text)
     \<and> (length (split_ws (clean_text text)) \<le> 100 \<longrightarrow>
          take 100 (split_ws (clean_text text)) = split_ws (clean_text text)
          \<and> take 100 (drop (length (split_ws (clean_text text)) div 2 - 50)
                (split_ws (clean_text text))) = split_ws (clean_text text)
          \<and> drop (length (split_ws (clean_text text)) - 100) (split_ws (clean_text text))
                = split_ws (clean_text text))
     \<and> (102 \<le> length (split_ws (clean_text text)) \<longrightarrow>
          0 < length (split_ws (clean_text text)) div 2 - 50
          \<and> length (split_ws (clean_text text)) div 2 - 50
               < length (split_ws (clean_text text)) - 100)"
proof -
  let ?ws = "split_ws (clean_text text)"
  let ?r = "report (title_text_of title) (length ?ws)
             (join '' '' (take 100 ?ws))
             (join '' '' (take 100 (drop (length ?ws div 2 - 50) ?ws)))
             (join '' '' (drop (length ?ws - 100) ?ws))"
  have eq: "fallback_summarize text title = ?r"
    unfolding fallback_summarize_ge50 [OF assms] excerpts_eq ..
  have pre: "prefix (''Video: '' @ t) ?r" if "title = Some t" and "t \<noteq> []" for t
  proof -
    have "prefix (''Video: '' @ t) (title_text_of title)"
      using that by (simp add: title_text_of_def)
    also have "prefix (title_text_of title) ?r" by (rule report_sublists(5))
    finally show ?thesis .
  qed
  have nt: "?ws = split_ws text" if "no_tag text"
    using that by (rule split_ws_clean_text_id)
  have ar: "0 < length ?ws div 2 - 50 \<and> length ?ws div 2 - 50 < length ?ws - 100"
    if "102 \<le> length ?ws"
    using that by linarith
  show ?thesis
    unfolding eq using report_sublists(1-4) pre nt ar by simp
qed

text \<open>The transcript of fifty words, with a title.\<close>

theorem fallback_summarize_report_witness:
  "fallback_summarize fifty_words (Some ''Talk'') =
     report (''Video: Talk'' @ nl @ nl) 50 fifty_words fifty_words fifty_words
   \<and> prefix ''Video: Talk'' (fallback_summarize fifty_words (Some ''Talk''))"
proof -
  let ?ws = "split_ws (clean_text fifty_words)"
  have n: "length ?ws = 50"
    by (simp only: clean_text_fifty split_ws_fifty)
  then have h: "50 \<le> length ?ws" by simp
  have j: "join '' '' ?ws = fifty_words"
    using clean_text_eq [of fifty_words] split_ws_clean_text [of fifty_words]
    by (simp add: clean_text_fifty)
  note th = fallback_summarize_report [OF h, of "Some ''Talk''"]
  from n have t: "take 100 ?ws = ?ws" "drop (length ?ws div 2 - 50) ?ws = ?ws"
    "drop (length ?ws - 100) ?ws = ?ws"
    by simp_all
  from th have "fallback_summarize fifty_words (Some ''Talk'') =
      report (title_text_of (Some ''Talk'')) (length ?ws)
        (join '' '' (take 100 ?ws))
        (join '' '' (take 100 (drop (length ?ws div 2 - 50) ?ws)))
        (join '' '' (drop (length ?ws - 100) ?ws))"
    by (rule conjunct1)
  then have a: "fallback_summarize fifty_words (Some ''Talk'') =
      report (''Video: Talk'' @ nl @ nl) 50 fifty_words fifty_words fifty_words"
    unfolding t j unfolding n by (simp add: title_text_of_def)
  from th have "\<forall>t. Some ''Talk'' = Some t \<and> t \<noteq> [] \<longrightarrow>
      prefix (''Video: '' @ t) (fallback_summarize fifty_words (Some ''Talk''))"
    by blast
  then have "prefix (''Video: '' @ ''Talk'') (fallback_summarize fifty_words (Some ''Talk''))"
    by blast
  then have b: "prefix ''Video: Talk'' (fallback_summarize fifty_words (Some ''Talk''))"
    by simp
  from a b show ?thesis by (rule conjI)
qed

text \<open>
  The three excerpts need not be distinct, nor 100 words long: on fifty words each of them
  is the whole text.
\<close>

theorem fallback_summarize_report_counterexample:
  "length (split_ws fifty_words) = 50
   \<and> fallback_summarize fifty_words None =
       report [] 50 fifty_words fifty_words fifty_words"
proof -
  have n: "length (split_ws (clean_text fifty_words)) = 50"
    by (simp only: clean_text_fifty split_ws_fifty)
  then have h: "50 \<le> length (split_ws (clean_text fifty_words))" by simp
  have j: "join '' '' (split_ws fifty_words) = fifty_words"
    using clean_text_eq [of fifty_words] split_ws_clean_text [of fifty_words]
    by (simp add: clean_text_fifty)
  have "fallback_summarize fifty_words None =
      report [] 50 (join '' '' (split_ws fifty_words)) (join '' '' (split_ws fifty_words))
        (join '' '' (split_ws fifty_words))"
    unfolding fallback_summarize_ge50 [OF h] n
    by (simp add: clean_text_fifty excerpts_short split_ws_fifty title_text_of_def)
  then show ?thesis
    by (simp add: j split_ws_fifty)
qed


text \<open>
  C9.  The empty string splits into no words, and the fallback summarizer returns on it the
  short notice that reports 0 words, whatever the title.  The summarizer has no failing
  branch: on every text it returns the short notice or the report.
\<close>

theorem fallback_summarize_empty:
  "split_ws [] = []
   \<and> fallback_summarize [] title =
       ''This video has very little spoken content. The transcript contains only 0 words.''
   \<and> (length (split_ws (clean_text text)) < 50
         \<and> fallback_summarize text title = short_notice (length (split_ws (clean_text text)))
       \<or> 50 \<le> length (split_ws (clean_text text))
         \<and> fallback_summarize text title =
             report (title_text_of title) (length (split_ws (clean_text text)))
               (beginning_of (split_ws (clean_text text)))
               (middle_of (split_ws (clean_text text)))
               (end_of (split_ws (clean_text text))))"
proof -
  have "fallback_summarize [] title =
      ''This video has very little spoken content. The transcript contains only 0 words.''"
    by (simp add: fallback_summarize_def clean_text_def short_notice_def str_nat_0 strip_def
        split_ws_Nil)
  moreover have "split_ws [] = []"
    by (simp add: split_ws_Nil)
  moreover have "length (split_ws (clean_text text)) < 50
         \<and> fallback_summarize text title = short_notice (length (split_ws (clean_text text)))
       \<or> 50 \<le> length (split_ws (clean_text text))
         \<and> fallback_summarize text title =
             report (title_text_of title) (length (split_ws (clean_text text)))
               (beginning_of (split_ws (clean_text text)))
               (middle_of (split_ws (clean_text text)))
               (end_of (split_ws (clean_text text)))"
    using fallback_summarize_lt50 [of "text" title] fallback_summarize_ge50 [of "text" title]
    by linarith
  ultimately show ?thesis by blast
qed

section \<open>The driver and the two summarization entry points\<close>

lemma fetch_transcript_Some:
  "fetch_transcript w v u = Inr (Some segs) \<Longrightarrow> segs \<noteq> []"
  by (auto simp: fetch_transcript_def Let_def split: http.splits if_splits)


lemma main_after_fetch:
  assumes "fetch_transcript w (video_id a) (api_url a) = Inr (Some segs)"
  shows "main w a =
     (case fetch_video_details w (video_id a) (api_url a) of
        Inl e \<Rightarrow> (NoFile, Some (Uncaught e))
      | Inr d \<Rightarrow>
          (case video_title_of d of
             Inl e \<Rightarrow> (NoFile, Some (Uncaught e))
           | Inr vt \<Rightarrow>
               (case clean_transcript_text (Some segs) of
                  Inl e \<Rightarrow> (NoFile, Some (Uncaught e))
                | Inr cleaned \<Rightarrow>
                    (case summarize_with_agno w cleaned vt of
                       Inl e \<Rightarrow> (NoFile, Some (Uncaught e))
                     | Inr summary \<Rightarrow>
                         (case output_path a of
                            None \<Rightarrow> (NoFile, None)
                          | Some path \<Rightarrow>
                              if path = [] then (NoFile, None)
                              else if \<not> open_ok w path then (NoFile, Some (Uncaught OSError))
                              else
                                (case dump_error w of
                                   Some e \<Rightarrow> (Opened path, Some (Uncaught e))
                                 | None \<Rightarrow>
                                     (Dumped path \<lparr>result_video_id = video_id a,
                                        result_title = vt, result_summary = summary\<rparr>,
                                      None)))))))"
  using assms fetch_transcript_Some [OF assms]
  by (simp add: main_def Let_def split: sum.splits option.splits)

lemmas eval_main = main_def fetch_transcript_def fetch_video_details_def video_title_of_def
  summarize_with_agno_def exit_code_def file_written_def example_args_def working_world_def
  failing_llm_world_def Let_def

lemma transcript_text_of_Segments:
  "transcript_text_of (Segments segs) = join '' '' (List.map_filter (\<lambda>sg. sg ''text'') segs)"
proof -
  have "map (\<lambda>sg. case sg ''text'' of None \<Rightarrow> [] | Some t \<Rightarrow> t)
          (filter (\<lambda>sg. sg ''text'' \<noteq> None) segs)
      = List.map_filter (\<lambda>sg. sg ''text'') segs"
    by (induction segs) auto
  then show ?thesis by (simp add: transcript_text_of_def)
qed




text \<open>
  C8.  In \<^verbatim>\<open>agno_summarize\<close>, when the provider is disabled (the flag is off or there is no
  \<^verbatim>\<open>llm\<close>) or the call raises, the result is \<^verbatim>\<open>fallback_summarize\<close> of the cleaned text and
  the title.  In \<^verbatim>\<open>summarize_with_agno\<close>, an error of the provider (at initialisation or in
  the call) is the outcome of the function, and a run of \<^verbatim>\<open>main\<close> that reaches the summarizer
  ends with that error uncaught: exit code 1 and no output file.
\<close>

theorem llm_unavailable:
  "((\<not> USING_AGNO p \<or> llm p = None
       \<or> (\<exists>f e. llm p = Some f
             \<and> f (llm_prompt (clean_text (transcript_text_of tr)) video_title) = Inl e))
      \<longrightarrow> agno_summarize p tr video_title
            = fallback_summarize (clean_text (transcript_text_of tr)) video_title)
   \<and> (transcript_text \<noteq> []
        \<and> (llm_init w = Some e
            \<or> (llm_init w = None \<and> generate w (agno_prompt transcript_text title) = Inl e))
      \<longrightarrow> summarize_with_agno w transcript_text title = Inl e)
   \<and> (\<forall>segs d vt cleaned.
        fetch_transcript w (video_id a) (api_url a) = Inr (Some segs)
        \<and> fetch_video_details w (video_id a) (api_url a) = Inr d
        \<and> video_title_of d = Inr vt
        \<and> clean_transcript_text (Some segs) = Inr cleaned
        \<and> summarize_with_agno w cleaned vt = Inl e
      \<longrightarrow> main w a = (NoFile, Some (Uncaught e)) \<and> exit_code (main w a) = 1
          \<and> file_written (main w a) = NoFile)"
proof (intro conjI allI impI)
  assume "\<not> USING_AGNO p \<or> llm p = None
       \<or> (\<exists>f e. llm p = Some f
             \<and> f (llm_prompt (clean_text (transcript_text_of tr)) video_title) = Inl e)"
  then show "agno_summarize p tr video_title
      = fallback_summarize (clean_text (transcript_text_of tr)) video_title"
    by (auto simp: agno_summarize_def Let_def split: option.splits sum.splits)
next
  assume "transcript_text \<noteq> []
        \<and> (llm_init w = Some e
            \<or> (llm_init w = None \<and> generate w (agno_prompt transcript_text title) = Inl e))"
  then show "summarize_with_agno w transcript_text title = Inl e"
    by (auto simp: summarize_with_agno_def)
next
  fix segs d vt cleaned
  assume h: "fetch_transcript w (video_id a) (api_url a) = Inr (Some segs)
        \<and> fetch_video_details w (video_id a) (api_url a) = Inr d
        \<and> video_title_of d = Inr vt
        \<and> clean_transcript_text (Some segs) = Inr cleaned
        \<and> summarize_with_agno w cleaned vt = Inl e"
  then have f: "fetch_transcript w (video_id a) (api_url a) = Inr (Some segs)" by simp
  from h show m: "main w a = (NoFile, Some (Uncaught e))"
    unfolding main_after_fetch [OF f] by simp
  show "exit_code (main w a) = 1" "file_written (main w a) = NoFile"
    unfolding m by (simp_all add: exit_code_def file_written_def)
qed

text \<open>A provider that raises, in both entry points.\<close>

theorem llm_unavailable_witness:
  "agno_summarize failing_provider (Text ''Hello <c>there</c>'') None
      = ''This video has very little spoken content. The transcript contains only 2 words.''
   \<and> summarize_with_agno failing_llm_world ''Hello there'' ''Greeting''
      = Inl (ProviderError ''service unavailable'')
   \<and> main failing_llm_world example_args
      = (NoFile, Some (Uncaught (ProviderError ''service unavailable'')))
   \<and> exit_code (main failing_llm_world example_args) = 1
   \<and> file_written (main failing_llm_world example_args) = NoFile"
proof -
  let ?e = "ProviderError ''service unavailable''"
  let ?d = "Some \<lparr>snippet = Some (SnippetObject [''title'' \<mapsto> ''Greeting''])\<rparr>"
  note th = llm_unavailable [of failing_provider "Text ''Hello <c>there</c>''" None
      "''Hello there''" failing_llm_world ?e "''Greeting''" example_args]
  have p: "\<exists>f e. llm failing_provider = Some f
      \<and> f (llm_prompt (clean_text (transcript_text_of (Text ''Hello <c>there</c>''))) None) = Inl e"
    by (simp add: failing_provider_def)
  with th have "agno_summarize failing_provider (Text ''Hello <c>there</c>'') None
      = fallback_summarize (clean_text (transcript_text_of (Text ''Hello <c>there</c>''))) None"
    by blast
  moreover have "clean_text (transcript_text_of (Text ''Hello <c>there</c>'')) = ''Hello there''"
    by (simp add: transcript_text_of_def clean_text_def pat_defs strip_def class_defs)
  moreover have "fallback_summarize ''Hello there'' None
      = ''This video has very little spoken content. The transcript contains only 2 words.''"
    by (simp add: fallback_summarize_def clean_text_def short_notice_def pat_defs strip_def
        split_ws.simps class_defs str_nat_small digit_char_def)
  ultimately have a: "agno_summarize failing_provider (Text ''Hello <c>there</c>'') None
      = ''This video has very little spoken content. The transcript contains only 2 words.''"
    by simp
  have g: "''Hello there'' \<noteq> []
      \<and> (llm_init failing_llm_world = Some ?e
          \<or> (llm_init failing_llm_world = None
              \<and> generate failing_llm_world (agno_prompt ''Hello there'' ''Greeting'') = Inl ?e))"
    by (simp add: failing_llm_world_def working_world_def)
  with th have b: "summarize_with_agno failing_llm_world ''Hello there'' ''Greeting'' = Inl ?e"
    by blast
  have f: "fetch_transcript failing_llm_world (video_id example_args) (api_url example_args)
      = Inr (Some [seg ''Hello <c>there</c>''])"
    by (simp add: eval_main)
  have v: "fetch_video_details failing_llm_world (video_id example_args) (api_url example_args)
      = Inr ?d"
    by (simp add: eval_main)
  have c: "clean_transcript_text (Some [seg ''Hello <c>there</c>'']) = Inr ''Hello there''"
    by (simp add: eval_clean)
  have t: "video_title_of ?d = Inr ''Greeting''"
    by (simp add: video_title_of_def)
  from th f v c b t have "main failing_llm_world example_args = (NoFile, Some (Uncaught ?e))
      \<and> exit_code (main failing_llm_world example_args) = 1
      \<and> file_written (main failing_llm_world example_args) = NoFile"
    by blast
  with a b show ?thesis by blast
qed

text \<open>
  C10.  On a list of segments \<^verbatim>\<open>agno_summarize\<close> works on the space-join of exactly the
  \<^verbatim>\<open>'text'\<close> entries that are present: the cleaned join is what the provider is sent in
  the prompt and what the fallback summarizes.  Segments without the entry can be dropped
  from the list without changing the result, and a list of such segments only is summarized
  as the empty text: with the provider off, the notice of 0 words.  The function has no
  failing branch.
\<close>

theorem agno_summarize_skips_textless:
  "transcript_text_of (Segments segs) = join '' '' (List.map_filter (\<lambda>sg. sg ''text'') segs)
   \<and> agno_summarize p (Segments segs) title =
       (case (if USING_AGNO p then llm p else None) of
          None \<Rightarrow>
            fallback_summarize
              (clean_text (join '' '' (List.map_filter (\<lambda>sg. sg ''text'') segs))) title
        | Some f \<Rightarrow>
            (case f (llm_prompt
                  (clean_text (join '' '' (List.map_filter (\<lambda>sg. sg ''text'') segs))) title) of
               Inr summary \<Rightarrow> summary
             | Inl e \<Rightarrow>
                 fallback_summarize
                   (clean_text (join '' '' (List.map_filter (\<lambda>sg. sg ''text'') segs))) title))
   \<and> agno_summarize p (Segments segs) title
      = agno_summarize p (Text (join '' '' (List.map_filter (\<lambda>sg. sg ''text'') segs))) title
   \<and> agno_summarize p (Segments segs) title
      = agno_summarize p (Segments (filter (\<lambda>sg. sg ''text'' \<noteq> None) segs)) title
   \<and> ((\<forall>sg \<in> set segs. sg ''text'' = None) \<longrightarrow>
        transcript_text_of (Segments segs) = []
        \<and> agno_summarize p (Segments segs) title = agno_summarize p (Text []) title
        \<and> (\<not> USING_AGNO p \<or> llm p = None \<longrightarrow>
             agno_summarize p (Segments segs) title =
               ''This video has very little spoken content. The transcript contains only 0 words.''))"
proof -
  let ?j = "join '' '' (List.map_filter (\<lambda>sg. sg ''text'') segs)"
  have a: "transcript_text_of (Segments segs) = ?j"
    by (rule transcript_text_of_Segments)
  have b: "transcript_text_of (Segments (filter (\<lambda>sg. sg ''text'' \<noteq> None) segs))
      = transcript_text_of (Segments segs)"
    by (simp add: transcript_text_of_def)
  have c: "transcript_text_of (Segments segs) = []" if "\<forall>sg \<in> set segs. sg ''text'' = None"
  proof -
    from that have "filter (\<lambda>sg. sg ''text'' \<noteq> None) segs = []"
      by (simp add: filter_empty_conv)
    then show ?thesis by (simp add: transcript_text_of_def)
  qed
  have d: "agno_summarize p x title = agno_summarize p y title"
    if "transcript_text_of x = transcript_text_of y" for x y
    using that by (simp add: agno_summarize_def)
  have t: "transcript_text_of (Text s) = s" for s
    by (simp add: transcript_text_of_def)
  have v: "agno_summarize p (Segments segs) title =
       (case (if USING_AGNO p then llm p else None) of
          None \<Rightarrow> fallback_summarize (clean_text ?j) title
        | Some f \<Rightarrow>
            (case f (llm_prompt (clean_text ?j) title) of
               Inr summary \<Rightarrow> summary
             | Inl e \<Rightarrow> fallback_summarize (clean_text ?j) title))"
    unfolding agno_summarize_def a Let_def ..
  have z: "agno_summarize p (Segments segs) title =
      ''This video has very little spoken content. The transcript contains only 0 words.''"
    if "\<forall>sg \<in> set segs. sg ''text'' = None" and "\<not> USING_AGNO p \<or> llm p = None"
  proof -
    have "fallback_summarize (clean_text []) title =
        ''This video has very little spoken content. The transcript contains only 0 words.''"
      by (simp add: fallback_summarize_def clean_text_def short_notice_def str_nat_0 strip_def
          split_ws_Nil)
    with that(2) c [OF that(1)] show ?thesis
      by (auto simp: agno_summarize_def)
  qed
  show ?thesis
    using a v d [of "Segments segs" "Text ?j"] d [OF b] d [of "Segments segs" "Text []"] c z
    by (simp add: t)
qed

text \<open>
  A list with a segment without text in the middle, with a provider that raises and with
  one that answers with its prompt; and a list of two segments without text.
\<close>

theorem agno_summarize_skips_textless_witness:
  "agno_summarize failing_provider
      (Segments [seg ''Hello'', [''start'' \<mapsto> ''0.0''], seg ''<c>there</c>'']) None
      = ''This video has very little spoken content. The transcript contains only 2 words.''
   \<and> agno_summarize echo_provider
      (Segments [seg ''Hello'', [''start'' \<mapsto> ''0.0''], seg ''<c>there</c>'']) None
      = ''Please summarize this video transcript. Focus on the main topics and key points.''
        @ nl @ nl @ ''Hello there''
   \<and> agno_summarize \<lparr>USING_AGNO = False, llm = None\<rparr>
      (Segments [[''start'' \<mapsto> ''0.0''], [''duration'' \<mapsto> ''2.5'']]) None
      = ''This video has very little spoken content. The transcript contains only 0 words.''"
proof -
  let ?mixed = "[seg ''Hello'', [''start'' \<mapsto> ''0.0''], seg ''<c>there</c>'']"
  let ?bad = "[[''start'' \<mapsto> ''0.0''], [''duration'' \<mapsto> ''2.5'']] :: segment list"
  let ?off = "\<lparr>USING_AGNO = False, llm = None\<rparr>"
  have j: "join '' '' (List.map_filter (\<lambda>sg. sg ''text'') ?mixed) = ''Hello <c>there</c>''"
    by (simp add: seg_def)
  have ct: "clean_text ''Hello <c>there</c>'' = ''Hello there''"
    by (simp add: clean_text_def pat_defs strip_def class_defs)
  have fb: "fallback_summarize ''Hello there'' None
      = ''This video has very little spoken content. The transcript contains only 2 words.''"
    by (simp add: fallback_summarize_def clean_text_def short_notice_def pat_defs strip_def
        split_ws.simps class_defs str_nat_small digit_char_def)
  from agno_summarize_skips_textless [of ?mixed failing_provider None]
  have "agno_summarize failing_provider (Segments ?mixed) None =
       (case (if USING_AGNO failing_provider then llm failing_provider else None) of
          None \<Rightarrow>
            fallback_summarize
              (clean_text (join '' '' (List.map_filter (\<lambda>sg. sg ''text'') ?mixed))) None
        | Some f \<Rightarrow>
            (case f (llm_prompt
                  (clean_text (join '' '' (List.map_filter (\<lambda>sg. sg ''text'') ?mixed))) None) of
               Inr summary \<Rightarrow> summary
             | Inl e \<Rightarrow>
                 fallback_summarize
                   (clean_text (join '' '' (List.map_filter (\<lambda>sg. sg ''text'') ?mixed))) None))"
    by blast
  then have a: "agno_summarize failing_provider (Segments ?mixed) None
      = ''This video has very little spoken content. The transcript contains only 2 words.''"
    unfolding j ct by (simp add: failing_provider_def fb)
  from agno_summarize_skips_textless [of ?mixed echo_provider None]
  have "agno_summarize echo_provider (Segments ?mixed) None =
       (case (if USING_AGNO echo_provider then llm echo_provider else None) of
          None \<Rightarrow>
            fallback_summarize
              (clean_text (join '' '' (List.map_filter (\<lambda>sg. sg ''text'') ?mixed))) None
        | Some f \<Rightarrow>
            (case f (llm_prompt
                  (clean_text (join '' '' (List.map_filter (\<lambda>sg. sg ''text'') ?mixed))) None) of
               Inr summary \<Rightarrow> summary
             | Inl e \<Rightarrow>
                 fallback_summarize
                   (clean_text (join '' '' (List.map_filter (\<lambda>sg. sg ''text'') ?mixed))) None))"
    by blast
  then have b: "agno_summarize echo_provider (Segments ?mixed) None
      = ''Please summarize this video transcript. Focus on the main topics and key points.''
        @ nl @ nl @ ''Hello there''"
    unfolding j ct by (simp add: echo_provider_def llm_prompt_def)
  have h: "\<forall>sg \<in> set ?bad. sg ''text'' = None" by simp
  have o: "\<not> USING_AGNO ?off \<or> llm ?off = None" by simp
  from agno_summarize_skips_textless [of ?bad ?off None] h o
  have c: "agno_summarize ?off (Segments ?bad) None
      = ''This video has very little spoken content. The transcript contains only 0 words.''"
    by blast
  from a b c show ?thesis by blast
qed

end
